theory Spec2Isabelle
  imports Main "HOL-Library.List_Lexorder"
begin

unbundle bit_operations_syntax

section \<open>Arithmetic primitives of \<^verbatim>\<open>collatz_o_operator.py\<close>\<close>

text \<open>
  Python integers are unbounded, so every trajectory value is an \<open>int\<close>.
  \<open>bit_length\<close> is Python's \<^verbatim>\<open>int.bit_length()\<close>: the number of binary digits of
  the absolute value, \<open>0\<close> for \<open>0\<close>.
\<close>

function bit_length :: "int \<Rightarrow> nat" where
  "bit_length x = (if x = 0 then 0 else Suc (bit_length (\<bar>x\<bar> div 2)))"
  by pat_completeness auto
termination
  by (relation "measure (\<lambda>x. nat \<bar>x\<bar>)") auto

declare bit_length.simps [simp del]

text \<open>
  \<^verbatim>\<open>def v2(x): x = abs(x); return (x & -x).bit_length() - 1 if x else 0\<close>
\<close>

definition v2 :: "int \<Rightarrow> nat" where
  "v2 x0 = (let x = \<bar>x0\<bar> in if x \<noteq> 0 then bit_length (x AND (- x)) - 1 else 0)"

text \<open>
  \<^verbatim>\<open>x // (1 << v2(x))\<close>: Python's floor division by a positive divisor is \<open>div\<close> on
  \<open>int\<close>; the shift is \<open>push_bit\<close>.
\<close>

definition O_plus :: "int \<Rightarrow> int" where
  "O_plus m = (if m = 0 then 1 else let x = 3 * m + 1 in x div (push_bit (v2 x) 1))"

definition O_minus :: "int \<Rightarrow> int" where
  "O_minus m = (if m = 0 then - 1 else let x = 3 * m - 1 in x div (push_bit (v2 x) 1))"

text \<open>
  The shape is passed around as the string \<^verbatim>\<open>"W"\<close> or \<^verbatim>\<open>"B"\<close>, the sign as the
  integer \<open>+1\<close> or \<open>-1\<close>, as in the source. \<^verbatim>\<open>n % 2\<close> is \<open>mod\<close> on \<open>int\<close> (the result
  has the sign of the divisor in both languages), \<^verbatim>\<open>k & 1\<close> is truthy when it is not \<open>0\<close>.
\<close>

definition normalize_initial :: "int \<Rightarrow> string \<Rightarrow> int" where
  "normalize_initial n0 even_type =
     (if n0 = 0 then 1
      else if n0 mod 2 = 0 then
        (let k = v2 n0;
             n = n0 div (push_bit k 1)
         in if even_type = ''B'' \<and> (k AND 1) \<noteq> 0 then - n else n)
      else n0)"

definition T_step_accel :: "int \<Rightarrow> string \<Rightarrow> int \<Rightarrow> int" where
  "T_step_accel n even_type odd_sign =
     (let nxt = (if odd_sign = 1 then O_plus n else O_minus n)
      in if even_type = ''W'' then nxt
         else let k = v2 (3 * n + (if odd_sign = 1 then 1 else - 1))
              in if (k AND 1) \<noteq> 0 then - nxt else nxt)"


datatype py_error = KeyError | IndexError

text \<open>
  \<^verbatim>\<open>parse_type\<close> reads \<^verbatim>\<open>type_tag[0]\<close>, which raises on the empty string, and
  \<^verbatim>\<open>type_tag.endswith("+1")\<close>.
\<close>

definition parse_type :: "string \<Rightarrow> py_error + (string \<times> int)" where
  "parse_type type_tag =
     (case type_tag of
        [] \<Rightarrow> Inl IndexError
      | c # _ \<Rightarrow>
          Inr (if c = CHR ''W'' then ''W'' else ''B'',
               if drop (length type_tag - 2) type_tag = ''+1'' then 1 else - 1))"

section \<open>A1-stable domain gating\<close>

definition is_a1_stable_domain :: "string \<Rightarrow> int \<Rightarrow> bool" where
  "is_a1_stable_domain type_tag fixed_sign =
     (if type_tag = ''B+1'' \<or> type_tag = ''B-1'' then True
      else if type_tag = ''W+1'' then fixed_sign = 1
      else if type_tag = ''W-1'' then fixed_sign = - 1
      else False)"

text \<open>
  \<^verbatim>\<open>len(cycle) == 1 and cycle[0] in (1, -1)\<close>: the index is read only after the length
  test succeeded, so \<open>cycle ! 0\<close> is always in range where it is evaluated.
\<close>

definition is_abs1_loop_from_cycle :: "int list \<Rightarrow> string \<Rightarrow> bool" where
  "is_abs1_loop_from_cycle cycle type_tag =
     (if length cycle = 1 \<and> (cycle ! 0 = 1 \<or> cycle ! 0 = - 1)
      then is_a1_stable_domain type_tag (if cycle ! 0 = 1 then 1 else - 1)
      else map abs cycle = [1, 4, 2, 1])"

definition is_known_small_loop :: "int list \<Rightarrow> bool" where
  "is_known_small_loop cycle =
     (if length cycle = 1 \<and> (cycle ! 0 = 1 \<or> cycle ! 0 = - 1) then True
      else let abs_cyc = map abs cycle
           in if length abs_cyc = 2 \<and> set abs_cyc = {1, 2} then True
              else abs_cyc = [1, 4, 2, 1])"

section \<open>Cycle canonicalization\<close>

text \<open>
  Tuples of integers are \<open>int list\<close>; Python compares them lexicographically, which is the
  order of \<open>HOL-Library.List_Lexorder\<close>. \<^verbatim>\<open>list.sort(key=...)\<close> is stable, as
  \<open>sort_key\<close> is. \<^verbatim>\<open>candidates[0]\<close> raises on an empty list.
\<close>

definition canonical_cycle :: "int list \<Rightarrow> bool \<Rightarrow> py_error + int list" where
  "canonical_cycle cyc by_abs =
     (let L = length cyc in
      if L = 0 then Inr []
      else
        let candidates =
              map (\<lambda>s. let rot = drop s cyc @ take s cyc;
                            key = (if by_abs then map abs rot else rot)
                        in (key, rot)) [0..<L];
            sorted_candidates = sort_key fst candidates
        in case sorted_candidates of
             [] \<Rightarrow> Inl IndexError
           | c # _ \<Rightarrow> Inr (if by_abs then fst c else snd c))"

section \<open>The classifier\<close>

text \<open>
  The local variables of \<^verbatim>\<open>worker\<close> that the loop updates: the current value \<^verbatim>\<open>n\<close>,
  the dictionary \<^verbatim>\<open>seen\<close> (value to first index), the log \<^verbatim>\<open>seq\<close>, the counter
  \<^verbatim>\<open>steps\<close> and the flag \<^verbatim>\<open>hit1\<close>.
\<close>

record wstate =
  w_n :: int
  w_seen :: "int \<rightharpoonup> nat"
  w_seq :: "int list"
  w_steps :: int
  w_hit1 :: bool

text \<open>The returned tuple \<^verbatim>\<open>(lab, ex, hit1, unknown_fp, unknown_cyc)\<close>.\<close>

type_synonym wresult =
  "string \<times> (int \<times> int list) option \<times> bool \<times> int list option \<times> int list option"

text \<open>
  The body of \<^verbatim>\<open>if n in seen:\<close> (source lines 186 to 196). \<^verbatim>\<open>seen[n]\<close> raises
  \<^verbatim>\<open>KeyError\<close> on a missing key; \<^verbatim>\<open>seq[i:]\<close> is \<open>drop i\<close>.
\<close>

definition worker_closure ::
  "int \<Rightarrow> string \<Rightarrow> bool \<Rightarrow> bool \<Rightarrow> bool \<Rightarrow> wstate \<Rightarrow> py_error + wresult" where
  "worker_closure n0 type_tag want_example report_cycles fp_abs st =
     (case w_seen st (w_n st) of
        None \<Rightarrow> Inl KeyError
      | Some i \<Rightarrow>
          let cycle = drop i (w_seq st);
              lab = (if is_abs1_loop_from_cycle cycle type_tag then ''ABS1'' else ''NON-ABS1'');
              ex = (if want_example \<and> (lab = ''ABS1'' \<or> lab = ''NON-ABS1'')
                    then Some (n0, cycle) else None)
          in if report_cycles \<and> lab = ''NON-ABS1'' \<and> \<not> is_known_small_loop cycle
             then (case canonical_cycle cycle fp_abs of
                     Inl e \<Rightarrow> Inl e
                   | Inr fp \<Rightarrow> Inr (lab, ex, w_hit1 st, Some fp, Some cycle))
             else Inr (lab, ex, w_hit1 st, None, None))"

text \<open>
  The rest of the loop body (source lines 197 to 203): record the value, then step, with
  the safeguard branch for an even value.
\<close>

definition worker_advance :: "string \<Rightarrow> int \<Rightarrow> wstate \<Rightarrow> wstate" where
  "worker_advance even_type odd_sign st =
     (let n = w_n st;
          seen' = (w_seen st)(n \<mapsto> length (w_seq st));
          seq' = w_seq st @ [n];
          n' = (if n mod 2 = 0 then normalize_initial n even_type
                else T_step_accel n even_type odd_sign)
      in st\<lparr>w_n := n', w_seen := seen', w_seq := seq', w_steps := w_steps st + 1\<rparr>)"

text \<open>
  The \<^verbatim>\<open>while steps < cap\<close> loop. It returns the local variables at the moment of the
  \<^verbatim>\<open>return\<close> together with the returned tuple.
\<close>

function worker_loop ::
  "int \<Rightarrow> string \<Rightarrow> string \<Rightarrow> int \<Rightarrow> int \<Rightarrow> bool \<Rightarrow> bool \<Rightarrow> bool \<Rightarrow> wstate
     \<Rightarrow> py_error + (wstate \<times> wresult)" where
  "worker_loop n0 type_tag even_type odd_sign cap want_example report_cycles fp_abs st =
     (if w_steps st < cap then
        (let st1 = (if w_n st = 1 then st\<lparr>w_hit1 := True\<rparr> else st)
         in if w_seen st1 (w_n st1) \<noteq> None
            then (case worker_closure n0 type_tag want_example report_cycles fp_abs st1 of
                    Inl e \<Rightarrow> Inl e
                  | Inr r \<Rightarrow> Inr (st1, r))
            else worker_loop n0 type_tag even_type odd_sign cap want_example report_cycles
                   fp_abs (worker_advance even_type odd_sign st1))
      else Inr (st, (''CAP'', None, w_hit1 st, None, None)))"
  by pat_completeness auto
termination
  by (relation "measure (\<lambda>(n0, type_tag, even_type, odd_sign, cap, want_example,
         report_cycles, fp_abs, st). nat (cap - w_steps st))")
     (auto simp: worker_advance_def Let_def)

declare worker_loop.simps [simp del]

definition worker_init :: "int \<Rightarrow> string \<Rightarrow> wstate" where
  "worker_init n0 even_type =
     \<lparr>w_n = normalize_initial n0 even_type, w_seen = Map.empty, w_seq = [],
      w_steps = 0, w_hit1 = False\<rparr>"

definition worker ::
  "int \<Rightarrow> string \<Rightarrow> string \<Rightarrow> int \<Rightarrow> int \<Rightarrow> bool \<Rightarrow> bool \<Rightarrow> bool \<Rightarrow> py_error + wresult" where
  "worker n0 type_tag even_type odd_sign cap want_example report_cycles fp_abs =
     (case worker_loop n0 type_tag even_type odd_sign cap want_example report_cycles fp_abs
             (worker_init n0 even_type) of
        Inl e \<Rightarrow> Inl e
      | Inr (st, r) \<Rightarrow> Inr r)"


text \<open>
  The trajectory the classifier walks: the normalized start, then the accelerated step
  of the run's configuration, \<open>k\<close> times.
\<close>

definition trajectory :: "string \<Rightarrow> int \<Rightarrow> int \<Rightarrow> nat \<Rightarrow> int" where
  "trajectory even_type odd_sign n0 k =
     ((\<lambda>m. T_step_accel m even_type odd_sign) ^^ k) (normalize_initial n0 even_type)"

section \<open>The unknown-cycle registry of \<^verbatim>\<open>run_sweep\<close>\<close>

text \<open>
  A registry entry is the dictionary
  \<^verbatim>\<open>{"count": .., "len": .., "samples": .., "cycle": ..}\<close>; the registry maps
  fingerprints to entries. \<^verbatim>\<open>MAX_SAMPLES_PER_CYCLE\<close> is a module-level setting that the
  user edits; the functions below take it as their first argument.
\<close>

record info =
  info_count :: int
  info_len :: nat
  info_samples :: "int list"
  info_cycle :: "int list"

type_synonym registry = "int list \<rightharpoonup> info"

definition MAX_SAMPLES_PER_CYCLE :: int where
  "MAX_SAMPLES_PER_CYCLE = 3"

definition add_unknown_cycle ::
  "int \<Rightarrow> registry \<Rightarrow> int list option \<Rightarrow> int option \<Rightarrow> int list option \<Rightarrow> registry" where
  "add_unknown_cycle max_samples cycle_registry fp starter cyc =
     (case fp of
        None \<Rightarrow> cycle_registry
      | Some f \<Rightarrow>
          (case cyc of
             None \<Rightarrow> cycle_registry
           | Some c \<Rightarrow>
               (case cycle_registry f of
                  None \<Rightarrow>
                    cycle_registry(f \<mapsto>
                      \<lparr>info_count = 1, info_len = length c,
                       info_samples = (case starter of Some s \<Rightarrow> [s] | None \<Rightarrow> []),
                       info_cycle = c\<rparr>)
                | Some i \<Rightarrow>
                    cycle_registry(f \<mapsto>
                      i\<lparr>info_count := info_count i + 1,
                        info_samples :=
                          (case starter of
                             Some s \<Rightarrow>
                               if int (length (info_samples i)) < max_samples
                               then info_samples i @ [s] else info_samples i
                           | None \<Rightarrow> info_samples i)\<rparr>))))"

text \<open>
  What the two result loops of \<^verbatim>\<open>run_sweep\<close> do to the registry for one worker result.
  The parallel loop (source lines 247 to 249) has \<^verbatim>\<open>starter = ex[0] if ex else None\<close>,
  the sequential loop (lines 259 to 261) has \<^verbatim>\<open>starter = ex[0] if ex else n0\<close>. A tuple
  \<^verbatim>\<open>(n0, cycle)\<close> is truthy, \<^verbatim>\<open>None\<close> is not.
\<close>

definition registry_step_parallel :: "bool \<Rightarrow> int \<Rightarrow> registry \<Rightarrow> wresult \<Rightarrow> registry" where
  "registry_step_parallel report_cycles max_samples cycle_registry r =
     (case r of (lab, ex, hit1, fp, cyc) \<Rightarrow>
        if report_cycles then
          (let starter = (case ex of Some e \<Rightarrow> Some (fst e) | None \<Rightarrow> None)
           in add_unknown_cycle max_samples cycle_registry fp starter cyc)
        else cycle_registry)"

definition registry_step_sequential ::
  "bool \<Rightarrow> int \<Rightarrow> registry \<Rightarrow> int \<Rightarrow> wresult \<Rightarrow> registry" where
  "registry_step_sequential report_cycles max_samples cycle_registry n0 r =
     (case r of (lab, ex, hit1, fp, cyc) \<Rightarrow>
        if report_cycles then
          (let starter = (case ex of Some e \<Rightarrow> fst e | None \<Rightarrow> n0)
           in add_unknown_cycle max_samples cycle_registry fp (Some starter) cyc)
        else cycle_registry)"

text \<open>
  The registry after the parallel loop has consumed the results in their arrival order.
\<close>

definition registry_parallel :: "bool \<Rightarrow> int \<Rightarrow> wresult list \<Rightarrow> registry" where
  "registry_parallel report_cycles max_samples results =
     foldl (registry_step_parallel report_cycles max_samples) Map.empty results"

text \<open>
  The registry after the sequential loop has run over the starting values, each paired
  with its worker result.
\<close>

definition registry_sequential :: "bool \<Rightarrow> int \<Rightarrow> (int \<times> wresult) list \<Rightarrow> registry" where
  "registry_sequential report_cycles max_samples results =
     foldl (\<lambda>reg (n0, r). registry_step_sequential report_cycles max_samples reg n0 r)
       Map.empty results"

section \<open>Loop states of the classifier\<close>

text \<open>
  The states in which the \<^verbatim>\<open>while\<close> loop of \<^verbatim>\<open>worker\<close> evaluates its condition: the
  initial one, and the one after each full pass through the loop body (a pass that did
  not return).
\<close>

inductive worker_reach :: "int \<Rightarrow> string \<Rightarrow> int \<Rightarrow> int \<Rightarrow> wstate \<Rightarrow> bool"
  for n0 :: int and even_type :: string and odd_sign :: int and cap :: int where
  reach_init: "worker_reach n0 even_type odd_sign cap (worker_init n0 even_type)"
| reach_pass:
    "worker_reach n0 even_type odd_sign cap st \<Longrightarrow>
     w_steps st < cap \<Longrightarrow>
     st1 = (if w_n st = 1 then st\<lparr>w_hit1 := True\<rparr> else st) \<Longrightarrow>
     w_seen st1 (w_n st1) = None \<Longrightarrow>
     worker_reach n0 even_type odd_sign cap (worker_advance even_type odd_sign st1)"

text \<open>
  The loop invariant: the log holds the first \<open>steps\<close> values of the trajectory without
  repetition, the current value is the next one, the dictionary maps each logged value to
  its index, and the flag says whether \<open>1\<close> is in the log.
\<close>

definition worker_inv :: "int \<Rightarrow> string \<Rightarrow> int \<Rightarrow> wstate \<Rightarrow> bool" where
  "worker_inv n0 even_type odd_sign st =
     (w_steps st = int (length (w_seq st)) \<and>
      w_seq st = map (trajectory even_type odd_sign n0) [0..<length (w_seq st)] \<and>
      w_n st = trajectory even_type odd_sign n0 (length (w_seq st)) \<and>
      distinct (w_seq st) \<and>
      (\<forall>v i. (w_seen st v = Some i) = (i < length (w_seq st) \<and> w_seq st ! i = v)) \<and>
      (w_hit1 st = (1 \<in> set (w_seq st))))"

text \<open>
  The list on which \<^verbatim>\<open>canonical_cycle\<close> compares rotations: the absolute values when
  \<^verbatim>\<open>by_abs\<close> is set, the values themselves otherwise.
\<close>

definition fp_key :: "bool \<Rightarrow> int list \<Rightarrow> int list" where
  "fp_key by_abs cyc = (if by_abs then map abs cyc else cyc)"

text \<open>
  A closed cycle of a configuration: the step function of that shape and sign takes every
  element to the next one and the last element to the first.
\<close>

definition closed_cycle :: "string \<Rightarrow> int \<Rightarrow> int list \<Rightarrow> bool" where
  "closed_cycle even_type odd_sign c = (map (\<lambda>v. T_step_accel v even_type odd_sign) c = rotate1 c)"

section \<open>Arithmetic facts\<close>

lemma and_neg_odd: "odd (a::int) \<Longrightarrow> a AND (- a) = 1"
proof -
  assume o: "odd a"
  have "(- a) div 2 = NOT (a div 2)" using o by (auto simp: not_int_def elim!: oddE)
  then have "(a div 2) AND ((- a) div 2) = 0" by simp
  then show ?thesis using o
    by (subst and_rec) simp
qed

lemma and_neg_even: "even (a::int) \<Longrightarrow> a AND (- a) = 2 * ((a div 2) AND (- (a div 2)))"
proof -
  assume e: "even a"
  then have "(- a) div 2 = - (a div 2)" by (auto elim!: evenE)
  then show ?thesis using e by (subst and_rec) simp
qed

lemma and_neg_pos: "(a::int) > 0 \<Longrightarrow> a AND (- a) > 0"
proof (induction "nat a" arbitrary: a rule: less_induct)
  case less
  show ?case
  proof (cases "odd a")
    case True then show ?thesis by (simp add: and_neg_odd)
  next
    case False
    then have e: "even a" by simp
    have "a div 2 > 0" using less.prems e by (auto elim!: evenE)
    moreover have "nat (a div 2) < nat a" using less.prems by auto
    ultimately have "(a div 2) AND (- (a div 2)) > 0" using less.hyps by blast
    then show ?thesis using and_neg_even[OF e] by simp
  qed
qed

lemma bit_length_double: "c > 0 \<Longrightarrow> bit_length (2 * c) = Suc (bit_length c)"
  by (subst bit_length.simps) simp

lemma bit_length_1: "bit_length 1 = 1"
  by (simp add: bit_length.simps[of 1] bit_length.simps[of 0])

text \<open>The bit trick of \<^verbatim>\<open>v2\<close> computes the 2-adic valuation.\<close>

lemma v2_rec: "v2 x = (if x = 0 \<or> odd x then 0 else Suc (v2 (x div 2)))"
proof (cases "x = 0")
  case True then show ?thesis by (simp add: v2_def)
next
  case nz: False
  show ?thesis
  proof (cases "odd x")
    case True
    then have "odd \<bar>x\<bar>" by simp
    then have "\<bar>x\<bar> AND (- \<bar>x\<bar>) = 1" by (rule and_neg_odd)
    then show ?thesis using True nz by (simp add: v2_def Let_def bit_length_1)
  next
    case False
    then have e: "even \<bar>x\<bar>" by simp
    have h: "\<bar>x\<bar> div 2 = \<bar>x div 2\<bar>" using False by (auto elim!: evenE)
    have nz2: "x div 2 \<noteq> 0" using False nz by (auto elim!: evenE)
    then have pos: "\<bar>x div 2\<bar> AND (- \<bar>x div 2\<bar>) > 0" by (intro and_neg_pos) simp
    have "\<bar>x\<bar> AND (- \<bar>x\<bar>) = 2 * (\<bar>x div 2\<bar> AND (- \<bar>x div 2\<bar>))"
      using and_neg_even[OF e] h by simp
    then have "bit_length (\<bar>x\<bar> AND (- \<bar>x\<bar>)) = Suc (bit_length (\<bar>x div 2\<bar> AND (- \<bar>x div 2\<bar>)))"
      using bit_length_double[OF pos] by simp
    moreover have "bit_length (\<bar>x div 2\<bar> AND (- \<bar>x div 2\<bar>)) > 0"
      using pos by (subst bit_length.simps) simp
    ultimately show ?thesis using False nz nz2 by (simp add: v2_def Let_def)
  qed
qed

lemma odd_strip: "x \<noteq> 0 \<Longrightarrow> odd (x div 2 ^ v2 x)"
proof (induction "nat \<bar>x\<bar>" arbitrary: x rule: less_induct)
  case less
  show ?case
  proof (cases "odd x")
    case True then show ?thesis by (subst v2_rec) simp
  next
    case False
    then have nz2: "x div 2 \<noteq> 0" using less.prems by (auto elim!: evenE)
    have "nat \<bar>x div 2\<bar> < nat \<bar>x\<bar>" using less.prems False by (auto elim!: evenE)
    then have ih: "odd ((x div 2) div 2 ^ v2 (x div 2))" using less.hyps nz2 by blast
    have "x div 2 ^ v2 x = (x div 2) div 2 ^ v2 (x div 2)"
      using False less.prems by (subst v2_rec) (simp add: zdiv_zmult2_eq)
    then show ?thesis using ih by simp
  qed
qed

lemma odd_O_plus: "odd m \<Longrightarrow> odd (O_plus m)"
proof -
  assume o: "odd m"
  then have "3 * m + 1 \<noteq> 0" by presburger
  then show ?thesis using o odd_strip[of "3 * m + 1"]
    by (auto simp: O_plus_def Let_def)
qed

lemma odd_O_minus: "odd m \<Longrightarrow> odd (O_minus m)"
proof -
  assume o: "odd m"
  then have "3 * m - 1 \<noteq> 0" by presburger
  then show ?thesis using o odd_strip[of "3 * m - 1"]
    by (auto simp: O_minus_def Let_def)
qed

lemma odd_T_step_accel: "odd n \<Longrightarrow> odd (T_step_accel n even_type odd_sign)"
  by (simp add: T_step_accel_def Let_def odd_O_plus odd_O_minus)

lemma odd_normalize_initial: "odd (normalize_initial n0 even_type)"
  using odd_strip[of n0]
  by (auto simp: normalize_initial_def Let_def)

lemma trajectory_Suc:
  "trajectory even_type odd_sign n0 (Suc k) =
     T_step_accel (trajectory even_type odd_sign n0 k) even_type odd_sign"
  by (simp add: trajectory_def)

lemma odd_trajectory: "odd (trajectory even_type odd_sign n0 k)"
proof (induction k)
  case 0
  show ?case by (simp add: trajectory_def odd_normalize_initial)
next
  case (Suc k)
  then show ?case by (simp add: trajectory_Suc odd_T_step_accel)
qed

section \<open>The loop invariant\<close>

lemma worker_inv_init: "worker_inv n0 even_type odd_sign (worker_init n0 even_type)"
  by (simp add: worker_inv_def worker_init_def trajectory_def)

lemma worker_inv_not_seen:
  assumes "worker_inv n0 even_type odd_sign st" and "w_seen st (w_n st) = None"
  shows "w_n st \<notin> set (w_seq st)"
proof
  assume "w_n st \<in> set (w_seq st)"
  then obtain i where "i < length (w_seq st)" "w_seq st ! i = w_n st"
    by (auto simp: in_set_conv_nth)
  then have "w_seen st (w_n st) = Some i" using assms(1) by (simp add: worker_inv_def)
  then show False using assms(2) by simp
qed

lemma worker_inv_seen:
  assumes "worker_inv n0 even_type odd_sign st" and "w_seen st (w_n st) = Some i"
  shows "i < length (w_seq st) \<and> w_seq st ! i = w_n st"
  using assms by (simp add: worker_inv_def)

lemma worker_inv_odd: "worker_inv n0 even_type odd_sign st \<Longrightarrow> odd (w_n st)"
  by (simp add: worker_inv_def odd_trajectory)

lemma worker_inv_advance:
  assumes inv: "worker_inv n0 even_type odd_sign st"
    and st1: "st1 = (if w_n st = 1 then st\<lparr>w_hit1 := True\<rparr> else st)"
    and new: "w_seen st1 (w_n st1) = None"
  shows "worker_inv n0 even_type odd_sign (worker_advance even_type odd_sign st1)"
proof -
  let ?j = "length (w_seq st)"
  let ?n = "w_n st"
  have new': "w_seen st ?n = None" using new st1 by (simp split: if_splits)
  have notin: "?n \<notin> set (w_seq st)" by (rule worker_inv_not_seen[OF inv new'])
  have oddn: "?n mod 2 \<noteq> 0" using worker_inv_odd[OF inv] by presburger
  have nj: "?n = trajectory even_type odd_sign n0 ?j" using inv by (simp add: worker_inv_def)
  have sq: "w_seq st = map (trajectory even_type odd_sign n0) [0..<?j]"
    using inv by (simp add: worker_inv_def)
  have adv: "worker_advance even_type odd_sign st1 =
      st1\<lparr>w_n := T_step_accel ?n even_type odd_sign,
          w_seen := (w_seen st)(?n \<mapsto> ?j),
          w_seq := w_seq st @ [?n],
          w_steps := w_steps st + 1\<rparr>"
    using oddn st1 by (simp add: worker_advance_def Let_def)
  have c1: "w_steps st + 1 = int (length (w_seq st @ [?n]))"
    using inv by (simp add: worker_inv_def)
  have c2: "w_seq st @ [?n] = map (trajectory even_type odd_sign n0) [0..<length (w_seq st @ [?n])]"
    using sq nj by simp
  have c3: "T_step_accel ?n even_type odd_sign
            = trajectory even_type odd_sign n0 (length (w_seq st @ [?n]))"
    using nj by (simp add: trajectory_Suc)
  have c4: "distinct (w_seq st @ [?n])" using inv notin by (simp add: worker_inv_def)
  have c5: "((w_seen st)(?n \<mapsto> ?j)) v = Some i \<longleftrightarrow>
            (i < length (w_seq st @ [?n]) \<and> (w_seq st @ [?n]) ! i = v)" for v i
  proof -
    have old: "w_seen st v = Some i \<longleftrightarrow> (i < ?j \<and> w_seq st ! i = v)"
      using inv by (simp add: worker_inv_def)
    show ?thesis
    proof (cases "v = ?n")
      case True
      have "i < ?j \<Longrightarrow> w_seq st ! i \<noteq> ?n" using notin by (metis nth_mem)
      then show ?thesis using True by (auto simp: nth_append less_Suc_eq)
    next
      case False
      then show ?thesis using old by (auto simp: nth_append less_Suc_eq)
    qed
  qed
  have c6: "w_hit1 st1 = (1 \<in> set (w_seq st @ [?n]))"
    using inv st1 by (auto simp: worker_inv_def)
  show ?thesis
    unfolding adv worker_inv_def using c1 c2 c3 c4 c5 c6 by simp
qed

lemma worker_reach_inv:
  "worker_reach n0 even_type odd_sign cap st \<Longrightarrow> worker_inv n0 even_type odd_sign st"
proof (induction rule: worker_reach.induct)
  case reach_init
  show ?case by (rule worker_inv_init)
next
  case (reach_pass st st1)
  then show ?case using worker_inv_advance by blast
qed

lemma worker_inv_hit_closed:
  assumes inv: "worker_inv n0 even_type odd_sign st" and "w_seen st (w_n st) \<noteq> None"
  shows "(if w_n st = 1 then st\<lparr>w_hit1 := True\<rparr> else st) = st"
proof -
  obtain i where "w_seen st (w_n st) = Some i" using assms(2) by auto
  then have "w_n st \<in> set (w_seq st)" using worker_inv_seen[OF inv] by (metis nth_mem)
  then have "w_n st = 1 \<Longrightarrow> w_hit1 st" using inv by (simp add: worker_inv_def)
  then show ?thesis by simp
qed

lemma worker_reach_steps_le:
  "worker_reach n0 even_type odd_sign cap st \<Longrightarrow> 0 \<le> cap \<Longrightarrow> w_steps st \<le> cap"
proof (induction rule: worker_reach.induct)
  case reach_init
  then show ?case by (simp add: worker_init_def)
next
  case (reach_pass st st1)
  then show ?case by (auto simp: worker_advance_def Let_def split: if_splits)
qed

lemma worker_loop_final:
  assumes "worker_reach n0 even_type odd_sign cap st"
  shows "\<exists>st'. worker_reach n0 even_type odd_sign cap st' \<and>
           (w_steps st' < cap \<longrightarrow> w_seen st' (w_n st') \<noteq> None) \<and>
           worker_loop n0 type_tag even_type odd_sign cap want_example report_cycles fp_abs st =
             (if w_steps st' < cap
              then (case worker_closure n0 type_tag want_example report_cycles fp_abs st' of
                      Inl e \<Rightarrow> Inl e | Inr r \<Rightarrow> Inr (st', r))
              else Inr (st', (''CAP'', None, w_hit1 st', None, None)))"
  using assms
proof (induction n0 type_tag even_type odd_sign cap want_example report_cycles fp_abs st
       rule: worker_loop.induct)
  case (1 n0 type_tag even_type odd_sign cap want_example report_cycles fp_abs st)
  note reach = "1.prems"
  have inv: "worker_inv n0 even_type odd_sign st" by (rule worker_reach_inv[OF reach])
  define st1 where "st1 = (if w_n st = 1 then st\<lparr>w_hit1 := True\<rparr> else st)"
  have n1: "w_n st1 = w_n st" and s1: "w_seen st1 = w_seen st" by (simp_all add: st1_def)
  show ?case
  proof (cases "w_steps st < cap")
    case False
    then have "worker_loop n0 type_tag even_type odd_sign cap want_example report_cycles fp_abs st
             = Inr (st, (''CAP'', None, w_hit1 st, None, None))"
      by (subst worker_loop.simps) simp
    then show ?thesis using False reach by (intro exI[of _ st]) simp
  next
    case lt: True
    show ?thesis
    proof (cases "w_seen st (w_n st) = None")
      case True
      then have new: "w_seen st1 (w_n st1) = None" by (simp add: n1 s1)
      have r': "worker_reach n0 even_type odd_sign cap (worker_advance even_type odd_sign st1)"
        by (rule reach_pass[OF reach lt st1_def new])
      have eq: "worker_loop n0 type_tag even_type odd_sign cap want_example report_cycles fp_abs st
          = worker_loop n0 type_tag even_type odd_sign cap want_example report_cycles fp_abs
              (worker_advance even_type odd_sign st1)"
        using lt new by (subst worker_loop.simps) (simp add: st1_def)
      from "1.IH"[OF lt st1_def _ r'] new
      show ?thesis unfolding eq by simp
    next
      case False
      then have st1: "st1 = st" using worker_inv_hit_closed[OF inv] by (simp add: st1_def)
      have "worker_loop n0 type_tag even_type odd_sign cap want_example report_cycles fp_abs st
          = (case worker_closure n0 type_tag want_example report_cycles fp_abs st of
                      Inl e \<Rightarrow> Inl e | Inr r \<Rightarrow> Inr (st, r))"
        using lt False st1 by (subst worker_loop.simps) (simp add: st1_def)
      then show ?thesis using lt False reach by (intro exI[of _ st]) simp
    qed
  qed
qed

section \<open>Canonical rotations\<close>

lemma sort_key_head:
  fixes f :: "'a \<Rightarrow> 'b::linorder"
  assumes "xs \<noteq> []"
  shows "\<exists>c cs. sort_key f xs = c # cs \<and> c \<in> set xs \<and> (\<forall>x\<in>set xs. f c \<le> f x)"
proof -
  have "length (sort_key f xs) = length xs" by simp
  then obtain c cs where eq: "sort_key f xs = c # cs" using assms by (cases "sort_key f xs") auto
  have s: "set (c # cs) = set xs" using eq by (metis set_sort)
  have "sorted (map f (c # cs))" using eq by (metis sorted_sort_key)
  then have "\<forall>x\<in>set (c # cs). f c \<le> f x" by auto
  then show ?thesis using eq s by auto
qed

lemma slice_rotate: "s < length cyc \<Longrightarrow> drop s cyc @ take s cyc = rotate s cyc"
  by (simp add: rotate_drop_take)

lemma fp_key_rotate: "fp_key b (rotate k cyc) = rotate k (fp_key b cyc)"
  by (simp add: fp_key_def rotate_map)

lemma rotate_back: "\<exists>j. rotate j (rotate k xs) = xs"
proof (cases "xs = []")
  case True then show ?thesis by simp
next
  case False
  let ?L = "length xs"
  have "(?L - k mod ?L + k) mod ?L = 0"
    using False by (metis add.commute le_add_diff_inverse2 length_greater_0_conv mod_add_right_eq mod_less_divisor mod_self nat_less_le)
  then have "rotate (?L - k mod ?L) (rotate k xs) = xs"
    by (simp add: rotate_rotate rotate_id)
  then show ?thesis by blast
qed

lemma canonical_cycle_least:
  "\<exists>r. canonical_cycle cyc b = Inr r \<and> (\<exists>k. r = rotate k (fp_key b cyc)) \<and>
       (\<forall>k. r \<le> rotate k (fp_key b cyc))"
proof (cases "cyc = []")
  case True
  then show ?thesis by (simp add: canonical_cycle_def fp_key_def)
next
  case False
  let ?L = "length cyc"
  let ?cands = "map (\<lambda>s. let rot = drop s cyc @ take s cyc;
                            key = (if b then map abs rot else rot)
                        in (key, rot)) [0..<?L]"
  have cands: "?cands = map (\<lambda>s. (fp_key b (rotate s cyc), rotate s cyc)) [0..<?L]"
    by (simp add: Let_def fp_key_def slice_rotate)
  have ne: "?cands \<noteq> []" using False by simp
  obtain c cs where hd: "sort_key fst ?cands = c # cs" and cin: "c \<in> set ?cands"
    and least: "\<forall>x\<in>set ?cands. fst c \<le> fst x"
    using sort_key_head[OF ne, of fst] by blast
  from cin obtain s where s: "s < ?L" "c = (fp_key b (rotate s cyc), rotate s cyc)"
    unfolding cands by auto
  have res: "canonical_cycle cyc b = Inr (fst c)"
    using False hd s by (simp add: canonical_cycle_def Let_def fp_key_def)
  have rot: "fst c = rotate s (fp_key b cyc)" using s by (simp add: fp_key_rotate)
  have "fst c \<le> rotate k (fp_key b cyc)" for k
  proof -
    have "k mod ?L < ?L" using False by simp
    then have "(fp_key b (rotate (k mod ?L) cyc), rotate (k mod ?L) cyc) \<in> set ?cands"
      unfolding cands by auto
    then have "fst c \<le> fp_key b (rotate (k mod ?L) cyc)" using least by fastforce
    moreover have "rotate (k mod ?L) cyc = rotate k cyc" by (metis rotate_conv_mod)
    ultimately show ?thesis by (simp add: fp_key_rotate)
  qed
  then show ?thesis using res rot by blast
qed

lemma canonical_cycle_eq_iff:
  "canonical_cycle c1 b = canonical_cycle c2 b \<longleftrightarrow> (\<exists>k. fp_key b c1 = rotate k (fp_key b c2))"
proof
  obtain r1 k1 where r1: "canonical_cycle c1 b = Inr r1" "r1 = rotate k1 (fp_key b c1)"
    "\<forall>k. r1 \<le> rotate k (fp_key b c1)" using canonical_cycle_least by blast
  obtain r2 k2 where r2: "canonical_cycle c2 b = Inr r2" "r2 = rotate k2 (fp_key b c2)"
    "\<forall>k. r2 \<le> rotate k (fp_key b c2)" using canonical_cycle_least by blast
  {
    assume "canonical_cycle c1 b = canonical_cycle c2 b"
    then have "rotate k1 (fp_key b c1) = rotate k2 (fp_key b c2)" using r1 r2 by simp
    moreover obtain j where "rotate j (rotate k1 (fp_key b c1)) = fp_key b c1"
      using rotate_back by blast
    ultimately have "fp_key b c1 = rotate (j + k2) (fp_key b c2)"
      by (metis rotate_rotate)
    then show "\<exists>k. fp_key b c1 = rotate k (fp_key b c2)" by blast
  }
  {
    assume "\<exists>k. fp_key b c1 = rotate k (fp_key b c2)"
    then obtain k where k: "fp_key b c1 = rotate k (fp_key b c2)" by blast
    obtain j where j: "rotate j (fp_key b c1) = fp_key b c2"
      using rotate_back[of k "fp_key b c2"] k by auto
    have "r1 = rotate (k1 + k) (fp_key b c2)" using r1(2) k by (metis rotate_rotate)
    then have a: "r2 \<le> r1" using r2(3) by simp
    have "r2 = rotate (k2 + j) (fp_key b c1)" using r2(2) j by (metis rotate_rotate)
    then have "r1 \<le> r2" using r1(3) by simp
    then show "canonical_cycle c1 b = canonical_cycle c2 b" using a r1(1) r2(1) by simp
  }
qed

section \<open>The concrete Bridge scenario\<close>

lemma T_step_1_B: "T_step_accel 1 ''B'' 1 = 1"
  by (simp add: T_step_accel_def O_plus_def v2_def bit_length.simps)

lemma loop_closed_1:
  "worker_loop n0 ''B+1'' ''B'' 1 50 want_example report_cycles fp_abs
     \<lparr>w_n = 1, w_seen = [1 \<mapsto> 0], w_seq = [1], w_steps = 1, w_hit1 = h\<rparr>
   = Inr (\<lparr>w_n = 1, w_seen = [1 \<mapsto> 0], w_seq = [1], w_steps = 1, w_hit1 = True\<rparr>,
          (''ABS1'', (if want_example then Some (n0, [1]) else None), True, None, None))"
  by (subst worker_loop.simps)
     (simp add: worker_closure_def is_abs1_loop_from_cycle_def is_a1_stable_domain_def)

lemma loop_from_1:
  "worker_loop n0 ''B+1'' ''B'' 1 50 want_example report_cycles fp_abs
     \<lparr>w_n = 1, w_seen = Map.empty, w_seq = [], w_steps = 0, w_hit1 = False\<rparr>
   = Inr (\<lparr>w_n = 1, w_seen = [1 \<mapsto> 0], w_seq = [1], w_steps = 1, w_hit1 = True\<rparr>,
          (''ABS1'', (if want_example then Some (n0, [1]) else None), True, None, None))"
  by (subst worker_loop.simps)
     (simp add: worker_advance_def T_step_1_B loop_closed_1)

text \<open>
  Claim C9. Under the tag \<^verbatim>\<open>"B+1"\<close> (shape Bridge, sign \<open>+1\<close>) with cap \<open>50\<close>, the starting
  value \<open>1\<close> normalizes to \<open>1\<close>, the walk logs \<open>[1]\<close>, takes one step and closes on the
  cycle \<open>[1]\<close>; the label is \<^verbatim>\<open>ABS1\<close> and the hit-1 flag is true. The starting value \<open>0\<close>
  normalizes to \<open>1\<close> and gets the same label and flag. This holds whatever the three
  reporting flags are.
\<close>

theorem scenario_bridge_plus_one:
  "parse_type ''B+1'' = Inr (''B'', 1) \<and>
   normalize_initial 1 ''B'' = 1 \<and> normalize_initial 0 ''B'' = 1 \<and>
   worker_loop 1 ''B+1'' ''B'' 1 50 want_example report_cycles fp_abs (worker_init 1 ''B'')
     = Inr (\<lparr>w_n = 1, w_seen = [1 \<mapsto> 0], w_seq = [1], w_steps = 1, w_hit1 = True\<rparr>,
            (''ABS1'', (if want_example then Some (1, [1]) else None), True, None, None)) \<and>
   worker 1 ''B+1'' ''B'' 1 50 want_example report_cycles fp_abs
     = Inr (''ABS1'', (if want_example then Some (1, [1]) else None), True, None, None) \<and>
   worker 0 ''B+1'' ''B'' 1 50 want_example report_cycles fp_abs
     = Inr (''ABS1'', (if want_example then Some (0, [1]) else None), True, None, None)"
proof -
  have p: "parse_type ''B+1'' = Inr (''B'', 1)" by (simp add: parse_type_def)
  have n1: "normalize_initial 1 ''B'' = 1" by (simp add: normalize_initial_def)
  have n0: "normalize_initial 0 ''B'' = 1" by (simp add: normalize_initial_def)
  show ?thesis
    by (simp add: p n1 n0 worker_def worker_init_def loop_from_1)
qed

section \<open>Fingerprints\<close>

text \<open>
  Claim C6. Rotation invariance of canonicalization: for every cycle, every rotation
  amount \<open>k\<close> and either value of the absolute-collapse flag, \<^verbatim>\<open>canonical_cycle\<close> of
  the cycle rotated by \<open>k\<close> positions equals \<^verbatim>\<open>canonical_cycle\<close> of the cycle.
\<close>

theorem canonical_cycle_rotation_invariant:
  "canonical_cycle (rotate k cyc) by_abs = canonical_cycle cyc by_abs"
proof -
  have "fp_key by_abs (rotate k cyc) = rotate k (fp_key by_abs cyc)"
    by (rule fp_key_rotate)
  then show ?thesis by (subst canonical_cycle_eq_iff) blast
qed

theorem canonical_cycle_rotation_invariant_witness:
  "canonical_cycle (rotate 2 [17, 25, 37, 55, 41, 61, 91]) False = Inr [17, 25, 37, 55, 41, 61, 91] \<and>
   canonical_cycle (rotate 1 [3, - 1, 2, - 1]) True = Inr [1, 2, 1, 3]"
proof -
  have a: "canonical_cycle [17, 25, 37, 55, 41, 61, 91] False = Inr [17, 25, 37, 55, 41, 61, 91]"
    by code_simp
  have b: "canonical_cycle [3, - 1, 2, - 1] True = Inr [1, 2, 1, 3]"
    by code_simp
  show ?thesis
    using canonical_cycle_rotation_invariant[of 2 "[17, 25, 37, 55, 41, 61, 91]" False]
      canonical_cycle_rotation_invariant[of 1 "[3, - 1, 2, - 1]" True] a b
    by simp
qed

text \<open>
  Claim C7. Mirror invariance under absolute-collapse: for every cycle,
  \<^verbatim>\<open>canonical_cycle\<close> with \<^verbatim>\<open>by_abs=True\<close> gives the same fingerprint for the cycle and
  for its element-wise negation.
\<close>

theorem canonical_cycle_mirror_invariant:
  "canonical_cycle (map uminus cyc) True = canonical_cycle cyc True"
proof -
  have "fp_key True (map uminus cyc) = rotate 0 (fp_key True cyc)"
    by (simp add: fp_key_def)
  then show ?thesis by (subst canonical_cycle_eq_iff) blast
qed

theorem canonical_cycle_mirror_invariant_witness:
  "canonical_cycle (map uminus [5, - 7, 3]) True = Inr [3, 5, 7] \<and>
   canonical_cycle [5, - 7, 3] True = Inr [3, 5, 7]"
proof -
  have b: "canonical_cycle [5, - 7, 3] True = Inr [3, 5, 7]"
    by code_simp
  show ?thesis
    using canonical_cycle_mirror_invariant[of "[5, - 7, 3]"] b by simp
qed

section \<open>What the classifier returns\<close>

lemma worker_closure_shape:
  assumes "w_seen st (w_n st) = Some i"
  shows "\<exists>fp cyc.
      worker_closure n0 type_tag want_example report_cycles fp_abs st =
        Inr (if is_abs1_loop_from_cycle (drop i (w_seq st)) type_tag then ''ABS1'' else ''NON-ABS1'',
             if want_example then Some (n0, drop i (w_seq st)) else None,
             w_hit1 st, fp, cyc) \<and>
      ((fp = None \<and> cyc = None) \<or>
       (cyc = Some (drop i (w_seq st)) \<and>
        canonical_cycle (drop i (w_seq st)) fp_abs = Inr (the fp) \<and> fp \<noteq> None))"
proof -
  obtain f where f: "canonical_cycle (drop i (w_seq st)) fp_abs = Inr f"
    using canonical_cycle_least by blast
  show ?thesis using assms f by (auto simp: worker_closure_def Let_def)
qed

lemma worker_outcome:
  "\<exists>st' lab ex fp cyc.
     worker_reach n0 even_type odd_sign cap st' \<and>
     worker_loop n0 type_tag even_type odd_sign cap want_example report_cycles fp_abs
         (worker_init n0 even_type) = Inr (st', (lab, ex, w_hit1 st', fp, cyc)) \<and>
     worker n0 type_tag even_type odd_sign cap want_example report_cycles fp_abs
       = Inr (lab, ex, w_hit1 st', fp, cyc) \<and>
     ((\<not> w_steps st' < cap \<and> lab = ''CAP'' \<and> ex = None \<and> fp = None \<and> cyc = None) \<or>
      (w_steps st' < cap \<and>
       (\<exists>i. w_seen st' (w_n st') = Some i \<and>
          lab = (if is_abs1_loop_from_cycle (drop i (w_seq st')) type_tag
                 then ''ABS1'' else ''NON-ABS1'') \<and>
          ex = (if want_example then Some (n0, drop i (w_seq st')) else None) \<and>
          ((fp = None \<and> cyc = None) \<or>
           (cyc = Some (drop i (w_seq st')) \<and>
            canonical_cycle (drop i (w_seq st')) fp_abs = Inr (the fp) \<and> fp \<noteq> None)))))"
proof -
  obtain st' where reach: "worker_reach n0 even_type odd_sign cap st'"
    and seen: "w_steps st' < cap \<longrightarrow> w_seen st' (w_n st') \<noteq> None"
    and loop: "worker_loop n0 type_tag even_type odd_sign cap want_example report_cycles fp_abs
                 (worker_init n0 even_type) =
             (if w_steps st' < cap
              then (case worker_closure n0 type_tag want_example report_cycles fp_abs st' of
                      Inl e \<Rightarrow> Inl e | Inr r \<Rightarrow> Inr (st', r))
              else Inr (st', (''CAP'', None, w_hit1 st', None, None)))"
    using worker_loop_final[OF reach_init] by blast
  show ?thesis
  proof (cases "w_steps st' < cap")
    case False
    then show ?thesis using reach loop
      by (intro exI[of _ st']) (simp add: worker_def)
  next
    case True
    then obtain i where i: "w_seen st' (w_n st') = Some i" using seen by auto
    obtain fp cyc where cl:
      "worker_closure n0 type_tag want_example report_cycles fp_abs st' =
        Inr (if is_abs1_loop_from_cycle (drop i (w_seq st')) type_tag then ''ABS1'' else ''NON-ABS1'',
             if want_example then Some (n0, drop i (w_seq st')) else None,
             w_hit1 st', fp, cyc)"
      and fc: "(fp = None \<and> cyc = None) \<or>
       (cyc = Some (drop i (w_seq st')) \<and>
        canonical_cycle (drop i (w_seq st')) fp_abs = Inr (the fp) \<and> fp \<noteq> None)"
      using worker_closure_shape[OF i] by blast
    have l: "worker_loop n0 type_tag even_type odd_sign cap want_example report_cycles fp_abs
                 (worker_init n0 even_type) =
             Inr (st', (if is_abs1_loop_from_cycle (drop i (w_seq st')) type_tag then ''ABS1'' else ''NON-ABS1'',
             if want_example then Some (n0, drop i (w_seq st')) else None,
             w_hit1 st', fp, cyc))"
      using loop True cl by simp
    then have w: "worker n0 type_tag even_type odd_sign cap want_example report_cycles fp_abs =
             Inr (if is_abs1_loop_from_cycle (drop i (w_seq st')) type_tag then ''ABS1'' else ''NON-ABS1'',
             if want_example then Some (n0, drop i (w_seq st')) else None,
             w_hit1 st', fp, cyc)"
      by (simp add: worker_def)
    show ?thesis using reach l w True i fc by blast
  qed
qed

text \<open>A value that repeats makes every later value of the trajectory one of the cycle.\<close>

lemma trajectory_shift:
  "trajectory even_type odd_sign n0 a = trajectory even_type odd_sign n0 b \<Longrightarrow>
   trajectory even_type odd_sign n0 (a + d) = trajectory even_type odd_sign n0 (b + d)"
  by (induction d) (simp_all add: trajectory_Suc)

lemma trajectory_periodic:
  assumes rep: "trajectory even_type odd_sign n0 j = trajectory even_type odd_sign n0 i"
    and ij: "i < j"
  shows "i \<le> m \<Longrightarrow> \<exists>k. i \<le> k \<and> k < j \<and>
           trajectory even_type odd_sign n0 m = trajectory even_type odd_sign n0 k"
proof (induction m rule: less_induct)
  case (less m)
  show ?case
  proof (cases "m < j")
    case True
    then show ?thesis using less.prems by blast
  next
    case False
    define m' where "m' = m - (j - i)"
    have m': "m' < m" "i \<le> m'" "m = j + (m' - i)" "m' = i + (m' - i)"
      using False ij less.prems by (auto simp: m'_def)
    have "trajectory even_type odd_sign n0 m = trajectory even_type odd_sign n0 m'"
      using trajectory_shift[OF rep, of "m' - i"] m'(3,4) by simp
    then show ?thesis using less.IH[OF m'(1) m'(2)] by auto
  qed
qed

section \<open>Termination and bounds of the classifier\<close>

lemma worker_inv_dom:
  assumes "worker_inv n0 even_type odd_sign st"
  shows "dom (w_seen st) = set (w_seq st)"
proof -
  have "(\<exists>i. w_seen st v = Some i) = (v \<in> set (w_seq st))" for v
    using assms by (auto simp: worker_inv_def in_set_conv_nth)
  then show ?thesis by (auto simp: dom_def)
qed

text \<open>
  Claim C5. For every starting value, configuration and positive cap the classifier
  returns a tuple (no \<^verbatim>\<open>KeyError\<close>, no \<^verbatim>\<open>IndexError\<close>; the loop is a total function).
  At the return the counter \<^verbatim>\<open>steps\<close> is between \<open>0\<close> and \<^verbatim>\<open>cap\<close>, the current value is the
  normalized start after exactly \<^verbatim>\<open>steps\<close> applications of the step function, the log and
  the dictionary hold \<^verbatim>\<open>steps\<close> pairwise distinct values, at most \<^verbatim>\<open>cap\<close>, and the label is
  \<^verbatim>\<open>ABS1\<close>, \<^verbatim>\<open>NON-ABS1\<close> or \<^verbatim>\<open>CAP\<close>.
\<close>

theorem worker_total_bounded:
  assumes "0 < cap"
  shows "\<exists>st lab ex h fp cyc.
     worker_loop n0 type_tag even_type odd_sign cap want_example report_cycles fp_abs
         (worker_init n0 even_type) = Inr (st, (lab, ex, h, fp, cyc)) \<and>
     worker n0 type_tag even_type odd_sign cap want_example report_cycles fp_abs
       = Inr (lab, ex, h, fp, cyc) \<and>
     0 \<le> w_steps st \<and> w_steps st \<le> cap \<and>
     w_n st = ((\<lambda>m. T_step_accel m even_type odd_sign) ^^ nat (w_steps st))
                (normalize_initial n0 even_type) \<and>
     int (length (w_seq st)) = w_steps st \<and> distinct (w_seq st) \<and>
     dom (w_seen st) = set (w_seq st) \<and> card (dom (w_seen st)) \<le> nat cap \<and>
     (lab = ''ABS1'' \<or> lab = ''NON-ABS1'' \<or> lab = ''CAP'')"
proof -
  obtain st lab ex fp cyc where reach: "worker_reach n0 even_type odd_sign cap st"
    and loop: "worker_loop n0 type_tag even_type odd_sign cap want_example report_cycles fp_abs
         (worker_init n0 even_type) = Inr (st, (lab, ex, w_hit1 st, fp, cyc))"
    and w: "worker n0 type_tag even_type odd_sign cap want_example report_cycles fp_abs
       = Inr (lab, ex, w_hit1 st, fp, cyc)"
    and out: "(\<not> w_steps st < cap \<and> lab = ''CAP'' \<and> ex = None \<and> fp = None \<and> cyc = None) \<or>
      (w_steps st < cap \<and>
       (\<exists>i. w_seen st (w_n st) = Some i \<and>
          lab = (if is_abs1_loop_from_cycle (drop i (w_seq st)) type_tag
                 then ''ABS1'' else ''NON-ABS1'') \<and>
          ex = (if want_example then Some (n0, drop i (w_seq st)) else None) \<and>
          ((fp = None \<and> cyc = None) \<or>
           (cyc = Some (drop i (w_seq st)) \<and>
            canonical_cycle (drop i (w_seq st)) fp_abs = Inr (the fp) \<and> fp \<noteq> None))))"
    using worker_outcome[of n0 even_type odd_sign cap type_tag want_example report_cycles fp_abs]
    by blast
  have inv: "worker_inv n0 even_type odd_sign st" by (rule worker_reach_inv[OF reach])
  have le: "w_steps st \<le> cap" using worker_reach_steps_le[OF reach] assms by simp
  have len: "int (length (w_seq st)) = w_steps st" using inv by (simp add: worker_inv_def)
  then have ge: "0 \<le> w_steps st" by linarith
  have n: "w_n st = ((\<lambda>m. T_step_accel m even_type odd_sign) ^^ nat (w_steps st))
                (normalize_initial n0 even_type)"
    using inv by (simp add: worker_inv_def trajectory_def)
  have d: "distinct (w_seq st)" using inv by (simp add: worker_inv_def)
  have dm: "dom (w_seen st) = set (w_seq st)" by (rule worker_inv_dom[OF inv])
  have "card (set (w_seq st)) = length (w_seq st)" using d by (rule distinct_card)
  then have c: "card (dom (w_seen st)) \<le> nat cap" using dm len le by simp
  have lab: "lab = ''ABS1'' \<or> lab = ''NON-ABS1'' \<or> lab = ''CAP''" using out by auto
  show ?thesis using loop w ge le n len d dm c lab by blast
qed

theorem worker_total_bounded_witness:
  "(0::int) < 50 \<and>
   worker 27 ''W+1'' ''W'' 1 50 True True False = Inr (''ABS1'', Some (27, [1]), True, None, None) \<and>
   (\<exists>st. worker_loop 27 ''W+1'' ''W'' 1 50 True True False (worker_init 27 ''W'')
       = Inr (st, (''ABS1'', Some (27, [1]), True, None, None)) \<and>
     0 \<le> w_steps st \<and> w_steps st \<le> 50 \<and> distinct (w_seq st) \<and>
     card (dom (w_seen st)) \<le> 50)"
proof -
  have pos: "(0::int) < 50" by simp
  have run: "worker 27 ''W+1'' ''W'' 1 50 True True False
             = Inr (''ABS1'', Some (27, [1]), True, None, None)"
    by code_simp
  from worker_total_bounded[OF pos, of 27 "''W+1''" "''W''" 1 True True False] run
  show ?thesis by auto
qed

section \<open>The closed cycle\<close>

lemma worker_inv_cycle:
  assumes inv: "worker_inv n0 even_type odd_sign st"
    and seen: "w_seen st (w_n st) = Some i"
    and J: "j = length (w_seq st)"
  shows "i < j \<and> drop i (w_seq st) = map (trajectory even_type odd_sign n0) [i..<j] \<and>
         trajectory even_type odd_sign n0 j = trajectory even_type odd_sign n0 i \<and>
         distinct (map (trajectory even_type odd_sign n0) [0..<j])"
proof -
  have sq: "w_seq st = map (trajectory even_type odd_sign n0) [0..<j]"
    using inv J by (simp add: worker_inv_def)
  have ij: "i < j" and at: "w_seq st ! i = w_n st"
    using worker_inv_seen[OF inv seen] J by simp_all
  have n: "w_n st = trajectory even_type odd_sign n0 j"
    using inv J by (simp add: worker_inv_def)
  have "w_seq st ! i = trajectory even_type odd_sign n0 i"
    using ij by (subst sq) simp
  then have rep: "trajectory even_type odd_sign n0 j = trajectory even_type odd_sign n0 i"
    using at n by simp
  have "drop i (w_seq st) = map (trajectory even_type odd_sign n0) (drop i [0..<j])"
    by (subst sq) (simp add: drop_map)
  then have dr: "drop i (w_seq st) = map (trajectory even_type odd_sign n0) [i..<j]"
    by (simp add: drop_upt)
  have "distinct (w_seq st)" using inv by (simp add: worker_inv_def)
  then have "distinct (map (trajectory even_type odd_sign n0) [0..<j])" using sq by simp
  then show ?thesis using ij dr rep by simp
qed

lemma cycle_closes:
  assumes "i < j"
    and "trajectory even_type odd_sign n0 j = trajectory even_type odd_sign n0 i"
    and "cycle = map (trajectory even_type odd_sign n0) [i..<j]"
  shows "cycle \<noteq> [] \<and> T_step_accel (last cycle) even_type odd_sign = hd cycle"
proof -
  obtain d where j: "j = Suc d" and d: "i \<le> d" using assms(1) by (cases j) auto
  have ne: "cycle \<noteq> []" using assms(1,3) by simp
  have up: "[i..<j] = [i..<d] @ [d]" using j d by simp
  have l: "last cycle = trajectory even_type odd_sign n0 d"
    by (simp add: assms(3) up)
  have "[i..<j] = i # [Suc i..<j]" using assms(1) by (simp add: upt_conv_Cons)
  then have h: "hd cycle = trajectory even_type odd_sign n0 i"
    by (simp add: assms(3))
  have "T_step_accel (trajectory even_type odd_sign n0 d) even_type odd_sign
        = trajectory even_type odd_sign n0 j"
    by (simp add: j trajectory_Suc)
  then show ?thesis using ne l h assms(2) by simp
qed

text \<open>
  Claim C4. A closed cycle that the classifier returns (in the example or as the unknown
  cycle) is the stretch of the trajectory from index \<open>i\<close> up to but not including index
  \<open>j\<close>, where \<open>j\<close> is the first index whose value occurred before (the values before \<open>j\<close>
  are pairwise distinct) and \<open>i\<close> is the index of that earlier occurrence. Its elements are
  pairwise distinct, and the step function of the run's configuration takes its last
  element to its first.
\<close>

theorem closed_cycle_minimal_period:
  assumes run: "worker n0 type_tag even_type odd_sign cap want_example report_cycles fp_abs
                  = Inr (lab, ex, h, fp, cyc)"
    and ret: "ex = Some (s, cycle) \<or> cyc = Some cycle"
  shows "\<exists>i j. i < j \<and> int j < cap \<and>
           cycle = map (trajectory even_type odd_sign n0) [i..<j] \<and>
           trajectory even_type odd_sign n0 j = trajectory even_type odd_sign n0 i \<and>
           distinct (map (trajectory even_type odd_sign n0) [0..<j]) \<and>
           distinct cycle \<and> cycle \<noteq> [] \<and>
           T_step_accel (last cycle) even_type odd_sign = hd cycle"
proof -
  obtain st lab' ex' fp' cyc' where reach: "worker_reach n0 even_type odd_sign cap st"
    and w: "worker n0 type_tag even_type odd_sign cap want_example report_cycles fp_abs
       = Inr (lab', ex', w_hit1 st, fp', cyc')"
    and out: "(\<not> w_steps st < cap \<and> lab' = ''CAP'' \<and> ex' = None \<and> fp' = None \<and> cyc' = None) \<or>
      (w_steps st < cap \<and>
       (\<exists>i. w_seen st (w_n st) = Some i \<and>
          lab' = (if is_abs1_loop_from_cycle (drop i (w_seq st)) type_tag
                 then ''ABS1'' else ''NON-ABS1'') \<and>
          ex' = (if want_example then Some (n0, drop i (w_seq st)) else None) \<and>
          ((fp' = None \<and> cyc' = None) \<or>
           (cyc' = Some (drop i (w_seq st)) \<and>
            canonical_cycle (drop i (w_seq st)) fp_abs = Inr (the fp') \<and> fp' \<noteq> None))))"
    using worker_outcome[of n0 even_type odd_sign cap type_tag want_example report_cycles fp_abs]
    by blast
  have same: "ex' = ex" "cyc' = cyc" using run w by simp_all
  have inv: "worker_inv n0 even_type odd_sign st" by (rule worker_reach_inv[OF reach])
  from out ret same obtain i where lt: "w_steps st < cap"
    and seen: "w_seen st (w_n st) = Some i"
    and cyc: "cycle = drop i (w_seq st)"
    by (auto split: if_splits)
  define j where "j = length (w_seq st)"
  have jc: "int j < cap" using inv lt by (simp add: worker_inv_def j_def)
  have c: "i < j" "cycle = map (trajectory even_type odd_sign n0) [i..<j]"
    "trajectory even_type odd_sign n0 j = trajectory even_type odd_sign n0 i"
    "distinct (map (trajectory even_type odd_sign n0) [0..<j])"
    using worker_inv_cycle[OF inv seen j_def] cyc by simp_all
  have "distinct (w_seq st)" using inv by (simp add: worker_inv_def)
  then have dc: "distinct cycle" using cyc by simp
  have cl: "cycle \<noteq> [] \<and> T_step_accel (last cycle) even_type odd_sign = hd cycle"
    by (rule cycle_closes[OF c(1) c(3) c(2)])
  show ?thesis using c jc dc cl by blast
qed

theorem closed_cycle_minimal_period_witness:
  "worker 5 ''W-1'' ''W'' (- 1) 50 False True False
     = Inr (''NON-ABS1'', None, False, Some [5, 7], Some [5, 7]) \<and>
   (\<exists>i j. i < j \<and> int j < 50 \<and> [5, 7] = map (trajectory ''W'' (- 1) 5) [i..<j] \<and>
          trajectory ''W'' (- 1) 5 j = trajectory ''W'' (- 1) 5 i \<and>
          distinct (map (trajectory ''W'' (- 1) 5) [0..<j])) \<and>
   T_step_accel 7 ''W'' (- 1) = 5"
proof -
  have run: "worker 5 ''W-1'' ''W'' (- 1) 50 False True False
     = Inr (''NON-ABS1'', None, False, Some [5, 7], Some [5, 7])"
    by code_simp
  have ret: "(None :: (int \<times> int list) option) = Some (0, [5, 7]) \<or> Some [5, 7] = Some [5, 7 :: int]"
    by simp
  have "\<exists>i j. i < j \<and> int j < 50 \<and>
           [5, 7] = map (trajectory ''W'' (- 1) 5) [i..<j] \<and>
           trajectory ''W'' (- 1) 5 j = trajectory ''W'' (- 1) 5 i \<and>
           distinct (map (trajectory ''W'' (- 1) 5) [0..<j]) \<and>
           distinct [5, 7 :: int] \<and> [5, 7 :: int] \<noteq> [] \<and>
           T_step_accel (last [5, 7]) ''W'' (- 1) = hd [5, 7]"
    by (rule closed_cycle_minimal_period[OF run ret])
  note E = this
  have part: "\<exists>i j. i < j \<and> int j < 50 \<and>
           [5, 7] = map (trajectory ''W'' (- 1) 5) [i..<j] \<and>
           trajectory ''W'' (- 1) 5 j = trajectory ''W'' (- 1) 5 i \<and>
           distinct (map (trajectory ''W'' (- 1) 5) [0..<j])"
    using E by (elim exE conjE) (intro exI conjI; assumption)
  have cl: "T_step_accel (last [5, 7]) ''W'' (- 1) = hd [5, 7]"
    using E by (elim exE conjE)
  have t: "T_step_accel 7 ''W'' (- 1) = 5" using cl by simp
  show ?thesis by (intro conjI run part t)
qed

section \<open>The hit-1 flag\<close>

text \<open>
  Claim C10. The values inspected at the top of the loop are the first \<open>m\<close> values of the
  trajectory, where \<open>m\<close> is \<^verbatim>\<open>cap\<close> when the label is \<^verbatim>\<open>CAP\<close> and the number of logged
  values plus one otherwise (at most \<^verbatim>\<open>cap\<close> in both cases); the returned hit-1 flag is
  true exactly when \<open>1\<close> is among them. The value after the last step of a run that reaches
  the cap is not inspected: when \<open>1\<close> occurs in the trajectory at index \<^verbatim>\<open>cap\<close> and nowhere
  before, the label is \<^verbatim>\<open>CAP\<close> and the flag is false.
\<close>

theorem hit1_inspected_values:
  assumes "0 < cap"
  shows "\<exists>st lab ex h fp cyc.
     worker_loop n0 type_tag even_type odd_sign cap want_example report_cycles fp_abs
         (worker_init n0 even_type) = Inr (st, (lab, ex, h, fp, cyc)) \<and>
     worker n0 type_tag even_type odd_sign cap want_example report_cycles fp_abs
       = Inr (lab, ex, h, fp, cyc) \<and>
     (if lab = ''CAP'' then nat cap else Suc (length (w_seq st))) \<le> nat cap \<and>
     h = (\<exists>k < (if lab = ''CAP'' then nat cap else Suc (length (w_seq st))).
            trajectory even_type odd_sign n0 k = 1) \<and>
     ((\<forall>k < nat cap. trajectory even_type odd_sign n0 k \<noteq> 1) \<and>
      trajectory even_type odd_sign n0 (nat cap) = 1 \<longrightarrow> lab = ''CAP'' \<and> \<not> h)"
proof -
  let ?t = "trajectory even_type odd_sign n0"
  obtain st lab ex fp cyc where reach: "worker_reach n0 even_type odd_sign cap st"
    and loop: "worker_loop n0 type_tag even_type odd_sign cap want_example report_cycles fp_abs
         (worker_init n0 even_type) = Inr (st, (lab, ex, w_hit1 st, fp, cyc))"
    and w: "worker n0 type_tag even_type odd_sign cap want_example report_cycles fp_abs
       = Inr (lab, ex, w_hit1 st, fp, cyc)"
    and out: "(\<not> w_steps st < cap \<and> lab = ''CAP'' \<and> ex = None \<and> fp = None \<and> cyc = None) \<or>
      (w_steps st < cap \<and>
       (\<exists>i. w_seen st (w_n st) = Some i \<and>
          lab = (if is_abs1_loop_from_cycle (drop i (w_seq st)) type_tag
                 then ''ABS1'' else ''NON-ABS1'') \<and>
          ex = (if want_example then Some (n0, drop i (w_seq st)) else None) \<and>
          ((fp = None \<and> cyc = None) \<or>
           (cyc = Some (drop i (w_seq st)) \<and>
            canonical_cycle (drop i (w_seq st)) fp_abs = Inr (the fp) \<and> fp \<noteq> None))))"
    using worker_outcome[of n0 even_type odd_sign cap type_tag want_example report_cycles fp_abs]
    by blast
  define j where "j = length (w_seq st)"
  define m where "m = (if lab = ''CAP'' then nat cap else Suc j)"
  have inv: "worker_inv n0 even_type odd_sign st" by (rule worker_reach_inv[OF reach])
  have le: "w_steps st \<le> cap" using worker_reach_steps_le[OF reach] assms by simp
  have steps: "w_steps st = int j" using inv by (simp add: worker_inv_def j_def)
  have sq: "w_seq st = map ?t [0..<j]" using inv by (simp add: worker_inv_def j_def)
  have hit: "w_hit1 st = (\<exists>k<j. ?t k = 1)"
  proof -
    have "w_hit1 st = (1 \<in> set (map ?t [0..<j]))" using inv sq by (simp add: worker_inv_def)
    also have "\<dots> = (\<exists>k<j. ?t k = 1)" by auto
    finally show ?thesis .
  qed
  show ?thesis
  proof (cases "w_steps st < cap")
    case False
    then have lab: "lab = ''CAP''" using out by auto
    have jc: "j = nat cap" using False le steps by simp
    have m: "m = nat cap" using lab by (simp add: m_def)
    have mle: "m \<le> nat cap" using m by simp
    have h: "w_hit1 st = (\<exists>k<m. ?t k = 1)" using hit jc m by simp
    have last: "(\<forall>k < nat cap. ?t k \<noteq> 1) \<and> ?t (nat cap) = 1 \<longrightarrow> lab = ''CAP'' \<and> \<not> w_hit1 st"
      using lab hit jc by simp
    show ?thesis using loop w mle h last unfolding m_def j_def by blast
  next
    case True
    then obtain i where seen: "w_seen st (w_n st) = Some i" and nl: "lab \<noteq> ''CAP''"
      using out by auto
    have cyc: "i < j" "?t j = ?t i"
      using worker_inv_cycle[OF inv seen j_def] by simp_all
    have m: "m = Suc j" using nl by (simp add: m_def)
    have mle: "m \<le> nat cap" using True steps m by simp
    have h: "w_hit1 st = (\<exists>k<m. ?t k = 1)"
    proof -
      have "(\<exists>k<Suc j. ?t k = 1) = (\<exists>k<j. ?t k = 1)"
        using cyc by (metis less_Suc_eq)
      then show ?thesis using hit m by simp
    qed
    have last: "(\<forall>k < nat cap. ?t k \<noteq> 1) \<and> ?t (nat cap) = 1 \<longrightarrow> lab = ''CAP'' \<and> \<not> w_hit1 st"
    proof
      assume a: "(\<forall>k < nat cap. ?t k \<noteq> 1) \<and> ?t (nat cap) = 1"
      have "i \<le> nat cap" using cyc(1) mle m by simp
      then obtain k where k: "k < j" "?t (nat cap) = ?t k"
        using trajectory_periodic[OF cyc(2) cyc(1), of "nat cap"] by blast
      have "k < nat cap" using k(1) mle m by simp
      then have False using a k(2) by auto
      then show "lab = ''CAP'' \<and> \<not> w_hit1 st" ..
    qed
    show ?thesis using loop w mle h last unfolding m_def j_def by blast
  qed
qed

theorem hit1_inspected_values_witness:
  "(0::int) < 1 \<and> trajectory ''W'' 1 5 0 = 5 \<and> trajectory ''W'' 1 5 1 = 1 \<and>
   worker 5 ''W+1'' ''W'' 1 1 False False False = Inr (''CAP'', None, False, None, None)"
proof -
  have pos: "(0::int) < 1" by simp
  have t0: "trajectory ''W'' 1 5 0 = 5" by code_simp
  have t1: "trajectory ''W'' 1 5 1 = 1" by code_simp
  have pre: "(\<forall>k < nat 1. trajectory ''W'' 1 5 k \<noteq> 1) \<and> trajectory ''W'' 1 5 (nat 1) = 1"
    using t0 t1 by simp
  have run: "worker 5 ''W+1'' ''W'' 1 1 False False False = Inr (''CAP'', None, False, None, None)"
    by code_simp
  from hit1_inspected_values[OF pos, of 5 "''W+1''" "''W''" 1 False False False] pre run
  show ?thesis using t0 t1 by auto
qed

section \<open>Odd values and the safeguard branch\<close>

lemma worker_loop_reach:
  "worker_reach n0 even_type odd_sign cap st \<Longrightarrow>
   worker_loop n0 type_tag even_type odd_sign cap want_example report_cycles fp_abs st =
   worker_loop n0 type_tag even_type odd_sign cap want_example report_cycles fp_abs
     (worker_init n0 even_type)"
proof (induction rule: worker_reach.induct)
  case reach_init
  show ?case by simp
next
  case (reach_pass st st1)
  have "worker_loop n0 type_tag even_type odd_sign cap want_example report_cycles fp_abs st =
        worker_loop n0 type_tag even_type odd_sign cap want_example report_cycles fp_abs
          (worker_advance even_type odd_sign st1)"
    using reach_pass.hyps(2,3,4) by (subst worker_loop.simps) simp
  then show ?case using reach_pass.IH by simp
qed

lemma worker_inv_log_odd:
  assumes "worker_inv n0 even_type odd_sign st" and "v \<in> set (w_seq st)"
  shows "odd v"
proof -
  have "w_seq st = map (trajectory even_type odd_sign n0) [0..<length (w_seq st)]"
    using assms(1) by (simp add: worker_inv_def)
  then obtain k where "v = trajectory even_type odd_sign n0 k"
    using assms(2) by (metis (no_types, lifting) imageE list.set_map)
  then show ?thesis by (simp add: odd_trajectory)
qed

text \<open>
  Claim C3. The accelerated step takes an odd integer to an odd integer, for every shape
  and sign, and the normalized start is odd. Hence in every state in which the loop of the
  classifier tests its condition (each such state lies on the run: the loop continued from
  it returns what the whole run returns) the current value is odd, so the test
  \<^verbatim>\<open>n % 2 == 0\<close> that guards the re-normalization fails and the loop body steps with
  \<^verbatim>\<open>T_step_accel\<close>; every value in the log is odd there, and in the log at the return.
\<close>

theorem accelerated_walk_stays_odd:
  "(odd n \<longrightarrow> odd (T_step_accel n even_type odd_sign)) \<and>
   odd (normalize_initial n0 even_type) \<and>
   (worker_reach n0 even_type odd_sign cap st \<longrightarrow>
      worker_loop n0 type_tag even_type odd_sign cap want_example report_cycles fp_abs st =
        worker_loop n0 type_tag even_type odd_sign cap want_example report_cycles fp_abs
          (worker_init n0 even_type) \<and>
      odd (w_n st) \<and> w_n st mod 2 \<noteq> 0 \<and>
      w_n (worker_advance even_type odd_sign st) = T_step_accel (w_n st) even_type odd_sign \<and>
      (\<forall>v \<in> set (w_seq st). odd v)) \<and>
   (worker_loop n0 type_tag even_type odd_sign cap want_example report_cycles fp_abs
        (worker_init n0 even_type) = Inr (st', r) \<longrightarrow>
      (\<forall>v \<in> set (w_seq st'). odd v))"
proof -
  have a: "odd n \<longrightarrow> odd (T_step_accel n even_type odd_sign)"
    by (simp add: odd_T_step_accel)
  have b: "odd (normalize_initial n0 even_type)" by (rule odd_normalize_initial)
  have c: "worker_loop n0 type_tag even_type odd_sign cap want_example report_cycles fp_abs st =
        worker_loop n0 type_tag even_type odd_sign cap want_example report_cycles fp_abs
          (worker_init n0 even_type) \<and>
      odd (w_n st) \<and> w_n st mod 2 \<noteq> 0 \<and>
      w_n (worker_advance even_type odd_sign st) = T_step_accel (w_n st) even_type odd_sign \<and>
      (\<forall>v \<in> set (w_seq st). odd v)"
    if reach: "worker_reach n0 even_type odd_sign cap st"
  proof -
    have inv: "worker_inv n0 even_type odd_sign st" by (rule worker_reach_inv[OF reach])
    have o: "odd (w_n st)" by (rule worker_inv_odd[OF inv])
    then have m: "w_n st mod 2 \<noteq> 0" by presburger
    then have adv: "w_n (worker_advance even_type odd_sign st)
        = T_step_accel (w_n st) even_type odd_sign"
      by (simp add: worker_advance_def Let_def)
    have l: "\<forall>v \<in> set (w_seq st). odd v" using worker_inv_log_odd[OF inv] by blast
    show ?thesis using worker_loop_reach[OF reach] o m adv l by blast
  qed
  have d: "\<forall>v \<in> set (w_seq st'). odd v"
    if run: "worker_loop n0 type_tag even_type odd_sign cap want_example report_cycles fp_abs
        (worker_init n0 even_type) = Inr (st', r)"
  proof -
    obtain st2 lab ex fp cyc where reach: "worker_reach n0 even_type odd_sign cap st2"
      and loop: "worker_loop n0 type_tag even_type odd_sign cap want_example report_cycles fp_abs
         (worker_init n0 even_type) = Inr (st2, (lab, ex, w_hit1 st2, fp, cyc))"
      using worker_outcome[of n0 even_type odd_sign cap type_tag want_example report_cycles fp_abs]
      by blast
    have "st' = st2" using run loop by simp
    then have "worker_inv n0 even_type odd_sign st'" using worker_reach_inv[OF reach] by simp
    then show ?thesis using worker_inv_log_odd by blast
  qed
  show ?thesis using a b c d by blast
qed

theorem accelerated_walk_stays_odd_witness:
  "odd (7 :: int) \<and> T_step_accel 7 ''B'' 1 = - 11 \<and> odd (- 11 :: int) \<and>
   normalize_initial 1 ''B'' = 1 \<and>
   worker_reach 1 ''B'' 1 50 (worker_init 1 ''B'') \<and>
   w_n (worker_init 1 ''B'') mod 2 \<noteq> 0 \<and>
   w_n (worker_advance ''B'' 1 (worker_init 1 ''B'')) = T_step_accel 1 ''B'' 1 \<and>
   worker_loop 1 ''B+1'' ''B'' 1 50 False False False (worker_init 1 ''B'')
     = Inr (\<lparr>w_n = 1, w_seen = [1 \<mapsto> 0], w_seq = [1], w_steps = 1, w_hit1 = True\<rparr>,
            (''ABS1'', None, True, None, None)) \<and>
   odd (1 :: int)"
proof -
  have o7: "odd (7 :: int)" by simp
  have t7: "T_step_accel 7 ''B'' 1 = - 11" by code_simp
  have n1: "normalize_initial 1 ''B'' = 1" by (simp add: normalize_initial_def)
  have reach: "worker_reach 1 ''B'' 1 50 (worker_init 1 ''B'')" by (rule reach_init)
  have run: "worker_loop 1 ''B+1'' ''B'' 1 50 False False False (worker_init 1 ''B'')
     = Inr (\<lparr>w_n = 1, w_seen = [1 \<mapsto> 0], w_seq = [1], w_steps = 1, w_hit1 = True\<rparr>,
            (''ABS1'', None, True, None, None))"
    using loop_from_1[of 1 False False False] by (simp add: worker_init_def n1)
  note inst = accelerated_walk_stays_odd[of 7 "''B''" 1 1 50 "worker_init 1 ''B''" "''B+1''"
      False False False
      "\<lparr>w_n = 1, w_seen = [1 \<mapsto> 0], w_seq = [1], w_steps = 1, w_hit1 = True\<rparr>"
      "(''ABS1'', None, True, None, None)"]
  have c1: "odd (T_step_accel 7 ''B'' 1)" using inst o7 by blast
  have c2: "w_n (worker_init 1 ''B'') mod 2 \<noteq> 0 \<and>
            w_n (worker_advance ''B'' 1 (worker_init 1 ''B'')) = T_step_accel 1 ''B'' 1"
    using inst reach by (simp add: worker_init_def n1)
  have c3: "\<forall>v \<in> set (w_seq \<lparr>w_n = 1, w_seen = [1 \<mapsto> 0], w_seq = [1], w_steps = 1,
                 w_hit1 = True\<rparr>). odd (v :: int)"
    using inst run by blast
  have o1: "odd (1 :: int)" using c3 by simp
  have o11: "odd (- 11 :: int)" using c1 t7 by simp
  show ?thesis
    by (intro conjI o7 t7 o11 n1 reach conjunct1[OF c2] conjunct2[OF c2] run o1)
qed

section \<open>Attractor gating\<close>

lemma T_step_m1_W: "T_step_accel (- 1) ''W'' 1 = - 1"
  by (simp add: T_step_accel_def O_plus_def v2_def bit_length.simps)

lemma loop_closed_m1:
  "worker_loop n0 ''W+1'' ''W'' 1 50 want_example report_cycles fp_abs
     \<lparr>w_n = - 1, w_seen = [- 1 \<mapsto> 0], w_seq = [- 1], w_steps = 1, w_hit1 = False\<rparr>
   = Inr (\<lparr>w_n = - 1, w_seen = [- 1 \<mapsto> 0], w_seq = [- 1], w_steps = 1, w_hit1 = False\<rparr>,
          (''NON-ABS1'', (if want_example then Some (n0, [- 1]) else None), False, None, None))"
  by (subst worker_loop.simps)
     (simp add: worker_closure_def is_abs1_loop_from_cycle_def is_a1_stable_domain_def
        is_known_small_loop_def)

lemma loop_from_m1:
  "worker_loop n0 ''W+1'' ''W'' 1 50 want_example report_cycles fp_abs
     \<lparr>w_n = - 1, w_seen = Map.empty, w_seq = [], w_steps = 0, w_hit1 = False\<rparr>
   = Inr (\<lparr>w_n = - 1, w_seen = [- 1 \<mapsto> 0], w_seq = [- 1], w_steps = 1, w_hit1 = False\<rparr>,
          (''NON-ABS1'', (if want_example then Some (n0, [- 1]) else None), False, None, None))"
  by (subst worker_loop.simps)
     (simp add: worker_advance_def Let_def T_step_m1_W loop_closed_m1)

text \<open>
  Claim C1. For the four configurations \<^verbatim>\<open>B+1\<close>, \<^verbatim>\<open>B-1\<close>, \<^verbatim>\<open>W+1\<close>, \<^verbatim>\<open>W-1\<close> and a
  single-element cycle \<open>[v]\<close> with \<open>v\<close> equal to \<open>1\<close> or \<open>-1\<close>: the cycle counts as the
  absolute-1 loop exactly when the configuration is a Bridge one, or it is \<^verbatim>\<open>W+1\<close> and
  \<open>v = 1\<close>, or it is \<^verbatim>\<open>W-1\<close> and \<open>v = -1\<close>; and a run of the classifier that closes on \<open>[v]\<close>
  within the cap returns the label \<^verbatim>\<open>ABS1\<close> in these cases and \<^verbatim>\<open>NON-ABS1\<close> in the others.
\<close>

theorem abs1_gating:
  assumes tag: "type_tag = ''B+1'' \<or> type_tag = ''B-1'' \<or> type_tag = ''W+1'' \<or> type_tag = ''W-1''"
    and v: "v = 1 \<or> v = - 1"
  shows "is_abs1_loop_from_cycle [v] type_tag =
           (type_tag = ''B+1'' \<or> type_tag = ''B-1'' \<or> (type_tag = ''W+1'' \<and> v = 1) \<or>
            (type_tag = ''W-1'' \<and> v = - 1)) \<and>
         (\<forall>st lab ex h fp cyc i.
            worker_loop n0 type_tag even_type odd_sign cap want_example report_cycles fp_abs
              (worker_init n0 even_type) = Inr (st, (lab, ex, h, fp, cyc)) \<and>
            w_steps st < cap \<and> w_seen st (w_n st) = Some i \<and> drop i (w_seq st) = [v] \<longrightarrow>
            lab = (if type_tag = ''B+1'' \<or> type_tag = ''B-1'' \<or> (type_tag = ''W+1'' \<and> v = 1) \<or>
                      (type_tag = ''W-1'' \<and> v = - 1)
                   then ''ABS1'' else ''NON-ABS1''))"
proof -
  have gate: "is_abs1_loop_from_cycle [v] type_tag =
           (type_tag = ''B+1'' \<or> type_tag = ''B-1'' \<or> (type_tag = ''W+1'' \<and> v = 1) \<or>
            (type_tag = ''W-1'' \<and> v = - 1))"
    using tag v by (auto simp: is_abs1_loop_from_cycle_def is_a1_stable_domain_def)
  have run: "lab = (if is_abs1_loop_from_cycle [v] type_tag then ''ABS1'' else ''NON-ABS1'')"
    if a: "worker_loop n0 type_tag even_type odd_sign cap want_example report_cycles fp_abs
              (worker_init n0 even_type) = Inr (st, (lab, ex, h, fp, cyc))"
      and lt: "w_steps st < cap" and seen: "w_seen st (w_n st) = Some i"
      and cyc: "drop i (w_seq st) = [v]"
    for st lab ex h fp cyc i
  proof -
    obtain st2 lab2 ex2 fp2 cyc2 where reach: "worker_reach n0 even_type odd_sign cap st2"
      and w2: "worker n0 type_tag even_type odd_sign cap want_example report_cycles fp_abs
       = Inr (lab2, ex2, w_hit1 st2, fp2, cyc2)"
      and loop: "worker_loop n0 type_tag even_type odd_sign cap want_example report_cycles fp_abs
         (worker_init n0 even_type) = Inr (st2, (lab2, ex2, w_hit1 st2, fp2, cyc2))"
      and out: "(\<not> w_steps st2 < cap \<and> lab2 = ''CAP'' \<and> ex2 = None \<and> fp2 = None \<and> cyc2 = None) \<or>
      (w_steps st2 < cap \<and>
       (\<exists>i. w_seen st2 (w_n st2) = Some i \<and>
          lab2 = (if is_abs1_loop_from_cycle (drop i (w_seq st2)) type_tag
                 then ''ABS1'' else ''NON-ABS1'') \<and>
          ex2 = (if want_example then Some (n0, drop i (w_seq st2)) else None) \<and>
          ((fp2 = None \<and> cyc2 = None) \<or>
           (cyc2 = Some (drop i (w_seq st2)) \<and>
            canonical_cycle (drop i (w_seq st2)) fp_abs = Inr (the fp2) \<and> fp2 \<noteq> None))))"
      using worker_outcome[of n0 even_type odd_sign cap type_tag want_example report_cycles fp_abs]
      by blast
    have same: "st2 = st" "lab2 = lab" using a loop by simp_all
    show ?thesis using out lt seen cyc unfolding same by auto
  qed
  show ?thesis using gate run by (simp only: gate) blast
qed

theorem abs1_gating_witness:
  "is_abs1_loop_from_cycle [- 1] ''W+1'' = False \<and>
   worker_loop (- 1) ''W+1'' ''W'' 1 50 False False False (worker_init (- 1) ''W'')
     = Inr (\<lparr>w_n = - 1, w_seen = [- 1 \<mapsto> 0], w_seq = [- 1], w_steps = 1, w_hit1 = False\<rparr>,
            (''NON-ABS1'', None, False, None, None)) \<and>
   w_steps \<lparr>w_n = - 1, w_seen = [- 1 \<mapsto> 0], w_seq = [- 1], w_steps = 1, w_hit1 = False\<rparr> < 50 \<and>
   w_seen \<lparr>w_n = - 1, w_seen = [- 1 \<mapsto> 0], w_seq = [- 1], w_steps = 1, w_hit1 = False\<rparr> (- 1)
     = Some 0 \<and>
   drop 0 (w_seq \<lparr>w_n = - 1, w_seen = [- 1 \<mapsto> 0], w_seq = [- 1 :: int], w_steps = 1,
                  w_hit1 = False\<rparr>) = [- 1]"
proof -
  have tag: "''W+1'' = ''B+1'' \<or> ''W+1'' = ''B-1'' \<or> ''W+1'' = ''W+1'' \<or> ''W+1'' = ''W-1''"
    by simp
  have v: "(- 1 :: int) = 1 \<or> (- 1 :: int) = - 1" by simp
  have n: "normalize_initial (- 1) ''W'' = - 1" by (simp add: normalize_initial_def)
  have run: "worker_loop (- 1) ''W+1'' ''W'' 1 50 False False False (worker_init (- 1) ''W'')
     = Inr (\<lparr>w_n = - 1, w_seen = [- 1 \<mapsto> 0], w_seq = [- 1], w_steps = 1, w_hit1 = False\<rparr>,
            (''NON-ABS1'', None, False, None, None))"
    using loop_from_m1[of "- 1" False False False] by (simp add: worker_init_def n)
  note inst = abs1_gating[OF tag v, of "- 1" "''W''" 1 50 False False False]
  have g: "is_abs1_loop_from_cycle [- 1] ''W+1'' = False" using inst by simp
  show ?thesis using g run by simp
qed

section \<open>The unknown-cycle registry\<close>

lemma add_unknown_cycle_entry:
  "\<exists>e'. add_unknown_cycle mx reg (Some f) starter (Some c) f = Some e' \<and>
     info_count e' = (case reg f of None \<Rightarrow> 1 | Some e \<Rightarrow> info_count e + 1) \<and>
     info_samples e' =
       (case reg f of
          None \<Rightarrow> (case starter of None \<Rightarrow> [] | Some s \<Rightarrow> [s])
        | Some e \<Rightarrow>
            (case starter of
               None \<Rightarrow> info_samples e
             | Some s \<Rightarrow> if int (length (info_samples e)) < mx
                         then info_samples e @ [s] else info_samples e))"
  by (cases "reg f"; cases starter) (simp_all add: add_unknown_cycle_def)

lemma add_unknown_cycle_other:
  "g \<noteq> f \<Longrightarrow> add_unknown_cycle mx reg (Some f) starter cyc g = reg g"
  by (cases cyc; cases "reg f") (simp_all add: add_unknown_cycle_def)

lemma add_unknown_cycle_bounded:
  assumes mx: "1 \<le> mx"
    and old: "\<forall>g e. reg g = Some e \<longrightarrow> int (length (info_samples e)) \<le> mx"
  shows "\<forall>g e. add_unknown_cycle mx reg fp starter cyc g = Some e \<longrightarrow>
           int (length (info_samples e)) \<le> mx"
proof (cases fp)
  case None
  then show ?thesis using old by (simp add: add_unknown_cycle_def)
next
  case (Some f)
  show ?thesis
  proof (cases cyc)
    case None
    then show ?thesis using old Some by (simp add: add_unknown_cycle_def)
  next
    case (Some c)
    show ?thesis
    proof (intro allI impI)
      fix g e
      assume a: "add_unknown_cycle mx reg fp starter cyc g = Some e"
      show "int (length (info_samples e)) \<le> mx"
      proof (cases "g = f")
        case False
        then have "reg g = Some e"
          using a \<open>fp = Some f\<close> add_unknown_cycle_other[of g f mx reg starter cyc] by simp
        then show ?thesis using old by blast
      next
        case True
        obtain e' where e': "add_unknown_cycle mx reg (Some f) starter (Some c) f = Some e'"
          and s: "info_samples e' =
             (case reg f of
                None \<Rightarrow> (case starter of None \<Rightarrow> [] | Some s \<Rightarrow> [s])
              | Some e \<Rightarrow>
                  (case starter of
                     None \<Rightarrow> info_samples e
                   | Some s \<Rightarrow> if int (length (info_samples e)) < mx
                               then info_samples e @ [s] else info_samples e))"
          using add_unknown_cycle_entry[of mx reg f starter c] by blast
        have "e = e'" using a e' True \<open>fp = Some f\<close> \<open>cyc = Some c\<close> by simp
        then show ?thesis using s mx old
          by (cases "reg f"; cases starter) (auto split: if_splits)
      qed
    qed
  qed
qed

lemma registry_fold_bounded_parallel:
  assumes mx: "1 \<le> mx"
  shows "(\<forall>g e. reg g = Some e \<longrightarrow> int (length (info_samples e)) \<le> mx) \<Longrightarrow>
         (\<forall>g e. foldl (registry_step_parallel rc mx) reg results g = Some e \<longrightarrow>
                 int (length (info_samples e)) \<le> mx)"
proof (induction results arbitrary: reg)
  case Nil
  then show ?case by simp
next
  case (Cons r results)
  obtain lab ex h fp cyc where r: "r = (lab, ex, h, fp, cyc)" by (cases r) auto
  have "\<forall>g e. registry_step_parallel rc mx reg r g = Some e \<longrightarrow>
               int (length (info_samples e)) \<le> mx"
    using add_unknown_cycle_bounded[OF mx Cons.prems] Cons.prems
    by (simp add: registry_step_parallel_def r Let_def)
  then show ?case using Cons.IH by simp
qed

lemma registry_fold_bounded_sequential:
  assumes mx: "1 \<le> mx"
  shows "(\<forall>g e. reg g = Some e \<longrightarrow> int (length (info_samples e)) \<le> mx) \<Longrightarrow>
         (\<forall>g e. foldl (\<lambda>reg (n0, r). registry_step_sequential rc mx reg n0 r) reg results g
                   = Some e \<longrightarrow> int (length (info_samples e)) \<le> mx)"
proof (induction results arbitrary: reg)
  case Nil
  then show ?case by simp
next
  case (Cons x results)
  obtain n0 lab ex h fp cyc where x: "x = (n0, lab, ex, h, fp, cyc)" by (cases x) auto
  have "\<forall>g e. registry_step_sequential rc mx reg n0 (lab, ex, h, fp, cyc) g = Some e \<longrightarrow>
               int (length (info_samples e)) \<le> mx"
    using add_unknown_cycle_bounded[OF mx Cons.prems] Cons.prems
    by (simp add: registry_step_sequential_def Let_def)
  then show ?case using Cons.IH x by simp
qed

lemma worker_example_start:
  assumes "worker n0 type_tag even_type odd_sign cap want_example report_cycles fp_abs
             = Inr (lab, ex, h, Some f, Some c)"
  shows "ex = (if want_example then Some (n0, c) else None)"
proof -
  obtain st lab' ex' fp' cyc' where reach: "worker_reach n0 even_type odd_sign cap st"
    and loop: "worker_loop n0 type_tag even_type odd_sign cap want_example report_cycles fp_abs
         (worker_init n0 even_type) = Inr (st, (lab', ex', w_hit1 st, fp', cyc'))"
    and w: "worker n0 type_tag even_type odd_sign cap want_example report_cycles fp_abs
       = Inr (lab', ex', w_hit1 st, fp', cyc')"
    and out: "(\<not> w_steps st < cap \<and> lab' = ''CAP'' \<and> ex' = None \<and> fp' = None \<and> cyc' = None) \<or>
      (w_steps st < cap \<and>
       (\<exists>i. w_seen st (w_n st) = Some i \<and>
          lab' = (if is_abs1_loop_from_cycle (drop i (w_seq st)) type_tag
                 then ''ABS1'' else ''NON-ABS1'') \<and>
          ex' = (if want_example then Some (n0, drop i (w_seq st)) else None) \<and>
          ((fp' = None \<and> cyc' = None) \<or>
           (cyc' = Some (drop i (w_seq st)) \<and>
            canonical_cycle (drop i (w_seq st)) fp_abs = Inr (the fp') \<and> fp' \<noteq> None))))"
    using worker_outcome[of n0 even_type odd_sign cap type_tag want_example report_cycles fp_abs]
    by blast
  have same: "ex' = ex" "cyc' = Some c" using assms w by simp_all
  show ?thesis using out unfolding same by auto
qed

text \<open>
  Claim C8 says that on every discovery of an unknown cycle, the first included, the count
  of the entry is incremented and the discovering start is put on the sample list while
  the list holds fewer than \<^verbatim>\<open>MAX_SAMPLES_PER_CYCLE\<close> entries, and that the list never
  exceeds that maximum. The code does not do this in the parallel result loop when no
  example is requested: start \<open>5\<close> under \<^verbatim>\<open>W-1\<close> discovers the unknown cycle \<open>[5, 7]\<close>, the
  worker returns no example, the loop passes \<^verbatim>\<open>starter = None\<close>, and the new entry has
  count \<open>1\<close> and an empty sample list although the maximum is \<open>3\<close>. The sequential loop
  records the start \<open>5\<close> for the same worker result. And the first discovery stores its
  sample without testing the maximum: with a maximum of \<open>0\<close> the list holds one sample.
\<close>

theorem registry_parallel_drops_start:
  "worker 5 ''W-1'' ''W'' (- 1) 50 False True False
     = Inr (''NON-ABS1'', None, False, Some [5, 7], Some [5, 7]) \<and>
   map_option info_count
     (registry_step_parallel True MAX_SAMPLES_PER_CYCLE Map.empty
        (''NON-ABS1'', None, False, Some [5, 7], Some [5, 7]) [5, 7]) = Some 1 \<and>
   map_option info_samples
     (registry_step_parallel True MAX_SAMPLES_PER_CYCLE Map.empty
        (''NON-ABS1'', None, False, Some [5, 7], Some [5, 7]) [5, 7]) = Some [] \<and>
   (0 :: int) < MAX_SAMPLES_PER_CYCLE \<and>
   map_option info_samples
     (registry_step_sequential True MAX_SAMPLES_PER_CYCLE Map.empty 5
        (''NON-ABS1'', None, False, Some [5, 7], Some [5, 7]) [5, 7]) = Some [5] \<and>
   map_option info_samples
     (registry_step_sequential True 0 Map.empty 5
        (''NON-ABS1'', None, False, Some [5, 7], Some [5, 7]) [5, 7]) = Some [5]"
proof -
  have run: "worker 5 ''W-1'' ''W'' (- 1) 50 False True False
     = Inr (''NON-ABS1'', None, False, Some [5, 7], Some [5, 7])"
    by code_simp
  show ?thesis
    by (simp add: run registry_step_parallel_def registry_step_sequential_def
        add_unknown_cycle_def MAX_SAMPLES_PER_CYCLE_def)
qed

section \<open>Fingerprints of closed cycles\<close>

lemma closed_cycle_rotate:
  assumes "closed_cycle even_type odd_sign c"
  shows "closed_cycle even_type odd_sign (rotate k c)"
proof -
  have "map (\<lambda>v. T_step_accel v even_type odd_sign) (rotate k c)
        = rotate k (map (\<lambda>v. T_step_accel v even_type odd_sign) c)"
    by (simp add: rotate_map)
  also have "\<dots> = rotate k (rotate1 c)" using assms by (simp add: closed_cycle_def)
  also have "\<dots> = rotate1 (rotate k c)" by (simp add: rotate1_rotate_swap)
  finally show ?thesis by (simp add: closed_cycle_def)
qed

lemma closed_cycle_nth:
  assumes "closed_cycle even_type odd_sign c" and "m < length c"
  shows "T_step_accel (c ! m) even_type odd_sign = c ! (Suc m mod length c)"
proof -
  have "map (\<lambda>v. T_step_accel v even_type odd_sign) c ! m = rotate1 c ! m"
    using assms(1) by (simp add: closed_cycle_def)
  then show ?thesis using assms(2) by (simp add: nth_rotate1)
qed

lemma closed_cycle_follow:
  assumes c1: "closed_cycle even_type odd_sign c1" and c2: "closed_cycle even_type odd_sign c2"
    and len: "length c1 = length c2" and m: "m < length c1" and eq: "c1 ! m = c2 ! m"
  shows "c1 ! ((m + d) mod length c1) = c2 ! ((m + d) mod length c1)"
proof (induction d)
  case 0
  show ?case using m eq by simp
next
  case (Suc d)
  let ?L = "length c1"
  let ?a = "(m + d) mod ?L"
  have "0 < ?L" using m by linarith
  then have a: "?a < ?L" by simp
  have s: "(m + Suc d) mod ?L = Suc ?a mod ?L" by (simp add: mod_Suc_eq)
  have "c1 ! (Suc ?a mod ?L) = T_step_accel (c1 ! ?a) even_type odd_sign"
    using closed_cycle_nth[OF c1 a] by simp
  also have "\<dots> = T_step_accel (c2 ! ?a) even_type odd_sign" using Suc.IH by simp
  also have "\<dots> = c2 ! (Suc ?a mod ?L)"
    using closed_cycle_nth[OF c2, of ?a] a len by simp
  finally show ?case using s by simp
qed

lemma closed_cycle_same_abs:
  assumes c1: "closed_cycle even_type odd_sign c1" and c2: "closed_cycle even_type odd_sign c2"
    and ab: "map abs c1 = map abs c2"
  shows "c1 = c2 \<or> c1 = map uminus c2"
proof -
  have len: "length c1 = length c2" using ab by (metis length_map)
  have abs_nth: "\<bar>c1 ! i\<bar> = \<bar>c2 ! i\<bar>" if "i < length c1" for i
  proof -
    have "map abs c1 ! i = map abs c2 ! i" using ab by simp
    then show ?thesis using that len by simp
  qed
  show ?thesis
  proof (cases "\<exists>m < length c1. c1 ! m = c2 ! m")
    case True
    then obtain m where m: "m < length c1" and eq: "c1 ! m = c2 ! m" by blast
    have "c1 ! i = c2 ! i" if i: "i < length c1" for i
    proof -
      have "(m + (i + (length c1 - m))) mod length c1 = i" using m i by simp
      then show ?thesis
        using closed_cycle_follow[OF c1 c2 len m eq, of "i + (length c1 - m)"] by simp
    qed
    then have "c1 = c2" using len by (simp add: nth_equalityI)
    then show ?thesis by simp
  next
    case False
    have "c1 ! i = map uminus c2 ! i" if i: "i < length c1" for i
    proof -
      have "c1 ! i \<noteq> c2 ! i" using False i by blast
      then have "c1 ! i = - (c2 ! i)" using abs_nth[OF i] by linarith
      then show ?thesis using i len by simp
    qed
    then have "c1 = map uminus c2" using len by (simp add: nth_equalityI)
    then show ?thesis by simp
  qed
qed

lemma worker_returned_cycle:
  assumes run: "worker n0 type_tag even_type odd_sign cap want_example report_cycles fp_abs
                  = Inr (lab, ex, h, fp, cyc)"
    and ret: "ex = Some (s, cycle) \<or> cyc = Some cycle"
  shows "\<exists>i j. i < j \<and> cycle = map (trajectory even_type odd_sign n0) [i..<j] \<and>
           trajectory even_type odd_sign n0 j = trajectory even_type odd_sign n0 i"
proof -
  obtain st lab' ex' fp' cyc' where reach: "worker_reach n0 even_type odd_sign cap st"
    and loop: "worker_loop n0 type_tag even_type odd_sign cap want_example report_cycles fp_abs
         (worker_init n0 even_type) = Inr (st, (lab', ex', w_hit1 st, fp', cyc'))"
    and w: "worker n0 type_tag even_type odd_sign cap want_example report_cycles fp_abs
       = Inr (lab', ex', w_hit1 st, fp', cyc')"
    and out: "(\<not> w_steps st < cap \<and> lab' = ''CAP'' \<and> ex' = None \<and> fp' = None \<and> cyc' = None) \<or>
      (w_steps st < cap \<and>
       (\<exists>i. w_seen st (w_n st) = Some i \<and>
          lab' = (if is_abs1_loop_from_cycle (drop i (w_seq st)) type_tag
                 then ''ABS1'' else ''NON-ABS1'') \<and>
          ex' = (if want_example then Some (n0, drop i (w_seq st)) else None) \<and>
          ((fp' = None \<and> cyc' = None) \<or>
           (cyc' = Some (drop i (w_seq st)) \<and>
            canonical_cycle (drop i (w_seq st)) fp_abs = Inr (the fp') \<and> fp' \<noteq> None))))"
    using worker_outcome[of n0 even_type odd_sign cap type_tag want_example report_cycles fp_abs]
    by blast
  have same: "ex' = ex" "cyc' = cyc" using run w by simp_all
  have inv: "worker_inv n0 even_type odd_sign st" by (rule worker_reach_inv[OF reach])
  from out ret same obtain i where seen: "w_seen st (w_n st) = Some i"
    and cyc: "cycle = drop i (w_seq st)"
    by (auto split: if_splits)
  define j where "j = length (w_seq st)"
  show ?thesis using worker_inv_cycle[OF inv seen j_def] cyc by blast
qed

lemma trajectory_stretch_closed:
  assumes ij: "i < j"
    and rep: "trajectory even_type odd_sign n0 j = trajectory even_type odd_sign n0 i"
  shows "closed_cycle even_type odd_sign (map (trajectory even_type odd_sign n0) [i..<j])"
proof -
  let ?t = "trajectory even_type odd_sign n0"
  have up: "[i..<j] = i # [Suc i..<j]" using ij by (simp add: upt_conv_Cons)
  have "map (\<lambda>v. T_step_accel v even_type odd_sign) (map ?t [i..<j])
        = map (\<lambda>k. ?t (Suc k)) [i..<j]"
    by (simp add: trajectory_Suc)
  also have "\<dots> = map ?t (map Suc [i..<j])" by simp
  also have "\<dots> = map ?t [Suc i..<Suc j]" by (simp add: map_Suc_upt)
  also have "\<dots> = map ?t [Suc i..<j] @ [?t j]" using ij by simp
  also have "\<dots> = map ?t [Suc i..<j] @ [?t i]" using rep by simp
  finally have l: "map (\<lambda>v. T_step_accel v even_type odd_sign) (map ?t [i..<j])
        = map ?t [Suc i..<j] @ [?t i]" .
  have "map ?t [i..<j] = ?t i # map ?t [Suc i..<j]" by (subst up) simp
  then have "rotate1 (map ?t [i..<j]) = map ?t [Suc i..<j] @ [?t i]" by simp
  then show ?thesis using l by (simp add: closed_cycle_def)
qed

lemma returned_cycle_closed:
  assumes "worker n0 type_tag even_type odd_sign cap want_example report_cycles fp_abs
                  = Inr (lab, ex, h, fp, cyc)"
    and "ex = Some (s, cycle) \<or> cyc = Some cycle"
  shows "closed_cycle even_type odd_sign cycle"
proof -
  obtain i j where "i < j" "cycle = map (trajectory even_type odd_sign n0) [i..<j]"
    "trajectory even_type odd_sign n0 j = trajectory even_type odd_sign n0 i"
    using worker_returned_cycle[OF assms] by blast
  then show ?thesis using trajectory_stretch_closed by simp
qed

text \<open>
  Claim C2. Take two closed cycles of one configuration: lists that the step function of
  that shape and sign maps onto their own rotation by one position, as every cycle that
  the classifier returns is. Without absolute-collapse they get the same fingerprint
  exactly when they are rotations of one another; with absolute-collapse exactly when one
  is a rotation of the other or of the other's element-wise negation. So structurally
  distinct cycles get different fingerprints, and every rotation of a cycle gets the
  fingerprint of the cycle.
\<close>

theorem fingerprint_uniqueness:
  assumes c1: "closed_cycle even_type odd_sign c1" and c2: "closed_cycle even_type odd_sign c2"
  shows "(canonical_cycle c1 False = canonical_cycle c2 False) = (\<exists>k. c1 = rotate k c2) \<and>
         (canonical_cycle c1 True = canonical_cycle c2 True)
           = ((\<exists>k. c1 = rotate k c2) \<or> (\<exists>k. c1 = rotate k (map uminus c2))) \<and>
         canonical_cycle (rotate j c1) by_abs = canonical_cycle c1 by_abs"
proof -
  have a: "(canonical_cycle c1 False = canonical_cycle c2 False) = (\<exists>k. c1 = rotate k c2)"
    by (simp add: canonical_cycle_eq_iff fp_key_def)
  have b: "(canonical_cycle c1 True = canonical_cycle c2 True)
           = ((\<exists>k. c1 = rotate k c2) \<or> (\<exists>k. c1 = rotate k (map uminus c2)))"
  proof
    assume "canonical_cycle c1 True = canonical_cycle c2 True"
    then obtain k where "map abs c1 = rotate k (map abs c2)"
      by (auto simp: canonical_cycle_eq_iff fp_key_def)
    then have ab: "map abs c1 = map abs (rotate k c2)" by (simp add: rotate_map)
    have "c1 = rotate k c2 \<or> c1 = map uminus (rotate k c2)"
      by (rule closed_cycle_same_abs[OF c1 closed_cycle_rotate[OF c2] ab])
    then show "(\<exists>k. c1 = rotate k c2) \<or> (\<exists>k. c1 = rotate k (map uminus c2))"
      by (auto simp: rotate_map)
  next
    assume "(\<exists>k. c1 = rotate k c2) \<or> (\<exists>k. c1 = rotate k (map uminus c2))"
    then obtain k where "c1 = rotate k c2 \<or> c1 = rotate k (map uminus c2)" by blast
    then have "map abs c1 = rotate k (map abs c2)"
      by (auto simp: rotate_map comp_def)
    then show "canonical_cycle c1 True = canonical_cycle c2 True"
      by (auto simp: canonical_cycle_eq_iff fp_key_def)
  qed
  have "fp_key by_abs (rotate j c1) = rotate j (fp_key by_abs c1)"
    by (rule fp_key_rotate)
  then have c: "canonical_cycle (rotate j c1) by_abs = canonical_cycle c1 by_abs"
    by (subst canonical_cycle_eq_iff) blast
  show ?thesis using a b c by blast
qed

theorem fingerprint_uniqueness_witness:
  "worker 5 ''W-1'' ''W'' (- 1) 50 False True True
     = Inr (''NON-ABS1'', None, False, Some [5, 7], Some [5, 7]) \<and>
   worker 7 ''W-1'' ''W'' (- 1) 50 False True True
     = Inr (''NON-ABS1'', None, False, Some [5, 7], Some [7, 5]) \<and>
   worker 17 ''W-1'' ''W'' (- 1) 50 False True True
     = Inr (''NON-ABS1'', None, False, Some [17, 25, 37, 55, 41, 61, 91],
            Some [17, 25, 37, 55, 41, 61, 91]) \<and>
   closed_cycle ''W'' (- 1) [5, 7] \<and> closed_cycle ''W'' (- 1) [7, 5] \<and>
   closed_cycle ''W'' (- 1) [17, 25, 37, 55, 41, 61, 91] \<and>
   canonical_cycle [7, 5] True = canonical_cycle [5, 7] True \<and>
   canonical_cycle [5, 7] True \<noteq> canonical_cycle [17, 25, 37, 55, 41, 61, 91] True \<and>
   canonical_cycle [5, 7] False \<noteq> canonical_cycle [17, 25, 37, 55, 41, 61, 91] False"
proof -
  have r5: "worker 5 ''W-1'' ''W'' (- 1) 50 False True True
     = Inr (''NON-ABS1'', None, False, Some [5, 7], Some [5, 7])"
    by code_simp
  have r7: "worker 7 ''W-1'' ''W'' (- 1) 50 False True True
     = Inr (''NON-ABS1'', None, False, Some [5, 7], Some [7, 5])"
    by code_simp
  have r17: "worker 17 ''W-1'' ''W'' (- 1) 50 False True True
     = Inr (''NON-ABS1'', None, False, Some [17, 25, 37, 55, 41, 61, 91],
            Some [17, 25, 37, 55, 41, 61, 91])"
    by code_simp
  have c5: "closed_cycle ''W'' (- 1) [5, 7]"
    by (rule returned_cycle_closed[OF r5, of 0]) simp
  have c7: "closed_cycle ''W'' (- 1) [7, 5]"
    by (rule returned_cycle_closed[OF r7, of 0]) simp
  have c17: "closed_cycle ''W'' (- 1) [17, 25, 37, 55, 41, 61, 91]"
    by (rule returned_cycle_closed[OF r17, of 0]) simp
  have rot: "[7, 5] = rotate 1 [5, 7 :: int]" by code_simp
  have len: "length (rotate k [17, 25, 37, 55, 41, 61, 91 :: int]) = 7"
    "length (rotate k (map uminus [17, 25, 37, 55, 41, 61, 91 :: int])) = 7" for k
    by simp_all
  have n1: "\<not> (\<exists>k. [5, 7] = rotate k [17, 25, 37, 55, 41, 61, 91 :: int])"
  proof
    assume "\<exists>k. [5, 7] = rotate k [17, 25, 37, 55, 41, 61, 91 :: int]"
    then obtain k where "[5, 7] = rotate k [17, 25, 37, 55, 41, 61, 91 :: int]" by blast
    then have "length [5, 7 :: int] = 7" using len(1)[of k] by simp
    then show False by simp
  qed
  have n2: "\<not> (\<exists>k. [5, 7] = rotate k (map uminus [17, 25, 37, 55, 41, 61, 91 :: int]))"
  proof
    assume "\<exists>k. [5, 7] = rotate k (map uminus [17, 25, 37, 55, 41, 61, 91 :: int])"
    then obtain k where "[5, 7] = rotate k (map uminus [17, 25, 37, 55, 41, 61, 91 :: int])"
      by blast
    then have "length [5, 7 :: int] = 7" using len(2)[of k] by simp
    then show False by simp
  qed
  have same: "canonical_cycle [7, 5] True = canonical_cycle [5, 7] True"
    using fingerprint_uniqueness[OF c7 c5] rot by blast
  have d1: "canonical_cycle [5, 7] True \<noteq> canonical_cycle [17, 25, 37, 55, 41, 61, 91] True"
    using fingerprint_uniqueness[OF c5 c17] n1 n2 by blast
  have d2: "canonical_cycle [5, 7] False \<noteq> canonical_cycle [17, 25, 37, 55, 41, 61, 91] False"
    using fingerprint_uniqueness[OF c5 c17] n1 by blast
  show ?thesis by (intro conjI r5 r7 r17 c5 c7 c17 same d1 d2)
qed

end
